theory Spec2Isabelle
  imports Main "HOL-Library.Sublist" "HOL-Library.Char_ord" "HOL-Library.List_Lexorder"
begin

text \<open>
  The core of SubHunter (main.go) as functions of HOL: the validator of host names, the
  extractor with the regular expression it compiles, the fetcher with its retry loop,
  the domain processor, and the batch orchestrator in its sequential and in its
  concurrent mode. The definitions come first, the properties proved of them after.
  What main.go takes from outside (the answers of the network, the JSON decoder, the
  lines of the file, the order in which goroutines run) is a parameter of the functions.
\<close>

section \<open>Strings\<close>

text \<open>
  A Go string is a sequence of bytes and \<^verbatim>\<open>len\<close> counts bytes; it is modelled as a
  \<^typ>\<open>string\<close>, the list of its bytes. The functions of package \<^verbatim>\<open>strings\<close> that
  main.go calls are written out below. \<^verbatim>\<open>TrimPrefix\<close>, \<^verbatim>\<open>HasPrefix\<close>,
  \<^verbatim>\<open>Contains\<close> and \<^verbatim>\<open>Split\<close> work on bytes and are modelled for every string.
  \<^verbatim>\<open>TrimSpace\<close> is modelled for every string too, on the UTF-8 encodings of the
  white space it removes. \<^verbatim>\<open>ToLower\<close> is modelled as it acts on ASCII text: Go also
  maps letters beyond ASCII, which the model leaves alone.
\<close>

definition stringsHasPrefix :: "string \<Rightarrow> string \<Rightarrow> bool" where
  "stringsHasPrefix s pre = (take (length pre) s = pre)"

definition stringsTrimPrefix :: "string \<Rightarrow> string \<Rightarrow> string" where
  "stringsTrimPrefix s pre = (if stringsHasPrefix s pre then drop (length pre) s else s)"

text \<open>
  \<^verbatim>\<open>strings.Split(s, sep)\<close> for a separator of one byte, the only kind main.go uses
  (\<^verbatim>\<open>"."\<close> and \<^verbatim>\<open>"\n"\<close>): the pieces between the separators, one more than there are
  separators, so the empty string gives one empty piece.
\<close>

fun stringsSplit :: "string \<Rightarrow> char \<Rightarrow> string list" where
  "stringsSplit [] sep = [[]]"
| "stringsSplit (x # xs) sep =
     (if x = sep then [] # stringsSplit xs sep
      else (case stringsSplit xs sep of [] \<Rightarrow> [[x]] | p # ps \<Rightarrow> (x # p) # ps))"

fun stringsContains :: "string \<Rightarrow> string \<Rightarrow> bool" where
  "stringsContains [] sub = (sub = [])"
| "stringsContains (x # xs) sub = (stringsHasPrefix (x # xs) sub \<or> stringsContains xs sub)"

definition isUpper :: "char \<Rightarrow> bool" where
  "isUpper c = (CHR ''A'' \<le> c \<and> c \<le> CHR ''Z'')"

definition isLower :: "char \<Rightarrow> bool" where
  "isLower c = (CHR ''a'' \<le> c \<and> c \<le> CHR ''z'')"

definition isDigit :: "char \<Rightarrow> bool" where
  "isDigit c = (CHR ''0'' \<le> c \<and> c \<le> CHR ''9'')"

definition toLowerChar :: "char \<Rightarrow> char" where
  "toLowerChar c = (if isUpper c then char_of (of_char c + (32::nat)) else c)"

definition stringsToLower :: "string \<Rightarrow> string" where
  "stringsToLower s = map toLowerChar s"

text \<open>
  \<^verbatim>\<open>strings.TrimSpace\<close> removes from both ends the characters for which
  \<^verbatim>\<open>unicode.IsSpace\<close> holds: tab, line feed, vertical tab, form feed, carriage return
  and space, U+0085 and U+00A0, and U+1680, U+2000 to U+200A, U+2028, U+2029, U+202F,
  U+205F and U+3000. \<open>spaceRunes\<close> lists their UTF-8 encodings. Go decodes the string
  one character at a time, from the front and then from the back; a byte that is not part
  of a well-formed encoding counts as a character that is not white space. A string
  begins (or ends) with a white-space character exactly when it begins (or ends) with one
  of the encodings, so the model removes encodings while there is one at the front, then
  while there is one at the back.
\<close>

definition spaceRunes :: "string list" where
  "spaceRunes =
     [[CHR 0x09], [CHR 0x0A], [CHR 0x0B], [CHR 0x0C], [CHR 0x0D], [CHR 0x20],
      [CHR 0xC2, CHR 0x85], [CHR 0xC2, CHR 0xA0],
      [CHR 0xE1, CHR 0x9A, CHR 0x80],
      [CHR 0xE2, CHR 0x80, CHR 0x80], [CHR 0xE2, CHR 0x80, CHR 0x81],
      [CHR 0xE2, CHR 0x80, CHR 0x82], [CHR 0xE2, CHR 0x80, CHR 0x83],
      [CHR 0xE2, CHR 0x80, CHR 0x84], [CHR 0xE2, CHR 0x80, CHR 0x85],
      [CHR 0xE2, CHR 0x80, CHR 0x86], [CHR 0xE2, CHR 0x80, CHR 0x87],
      [CHR 0xE2, CHR 0x80, CHR 0x88], [CHR 0xE2, CHR 0x80, CHR 0x89],
      [CHR 0xE2, CHR 0x80, CHR 0x8A],
      [CHR 0xE2, CHR 0x80, CHR 0xA8], [CHR 0xE2, CHR 0x80, CHR 0xA9],
      [CHR 0xE2, CHR 0x80, CHR 0xAF], [CHR 0xE2, CHR 0x81, CHR 0x9F],
      [CHR 0xE3, CHR 0x80, CHR 0x80]]"

definition stringsHasSuffix :: "string \<Rightarrow> string \<Rightarrow> bool" where
  "stringsHasSuffix s suf =
     (length suf \<le> length s \<and> drop (length s - length suf) s = suf)"

function trimLeftSpace :: "string \<Rightarrow> string" where
  "trimLeftSpace s =
     (case find (stringsHasPrefix s) spaceRunes of
        None \<Rightarrow> s
      | Some r \<Rightarrow> trimLeftSpace (drop (length r) s))"
  by pat_completeness auto
termination
proof (relation "measure length")
  show "wf (measure length)" by simp
next
  fix s r assume "find (stringsHasPrefix s) spaceRunes = Some r"
  then have "r \<in> set spaceRunes" and "take (length r) s = r"
    by (auto simp: find_Some_iff stringsHasPrefix_def)
  moreover have "\<forall>r \<in> set spaceRunes. r \<noteq> []" by (simp add: spaceRunes_def)
  ultimately have "r \<noteq> []" and "s \<noteq> []" by auto
  then show "(drop (length r) s, s) \<in> measure length" by simp
qed

function trimRightSpace :: "string \<Rightarrow> string" where
  "trimRightSpace s =
     (case find (stringsHasSuffix s) spaceRunes of
        None \<Rightarrow> s
      | Some r \<Rightarrow> trimRightSpace (take (length s - length r) s))"
  by pat_completeness auto
termination
proof (relation "measure length")
  show "wf (measure length)" by simp
next
  fix s r assume "find (stringsHasSuffix s) spaceRunes = Some r"
  then have "r \<in> set spaceRunes" and "length r \<le> length s"
    by (auto simp: find_Some_iff stringsHasSuffix_def)
  moreover have "\<forall>r \<in> set spaceRunes. r \<noteq> []" by (simp add: spaceRunes_def)
  ultimately have "r \<noteq> []" and "s \<noteq> []" by auto
  then show "(take (length s - length r) s, s) \<in> measure length" by simp
qed

declare trimLeftSpace.simps [simp del] trimRightSpace.simps [simp del]

definition stringsTrimSpace :: "string \<Rightarrow> string" where
  "stringsTrimSpace s = trimRightSpace (trimLeftSpace s)"

definition isASCII :: "string \<Rightarrow> bool" where
  "isASCII s = list_all (\<lambda>c. of_char c < (128::nat)) s"

section \<open>Validator\<close>

text \<open>
  \<^verbatim>\<open>isValidSubdomain\<close> (main.go, lines 107 to 121). The length test comes first, on the
  string as it was passed; the prefix \<^verbatim>\<open>*.\<close> is removed after it. \<open>labelsOk\<close> is the
  \<^verbatim>\<open>for _, part := range parts\<close> loop, which returns false at the first label that is
  empty or longer than 63 bytes.
\<close>

fun labelsOk :: "string list \<Rightarrow> bool" where
  "labelsOk [] = True"
| "labelsOk (part # parts) =
     (if length part = 0 \<or> length part > 63 then False else labelsOk parts)"

definition isValidSubdomain :: "string \<Rightarrow> bool" where
  "isValidSubdomain subdomain =
     (if length subdomain = 0 \<or> length subdomain > 253 then False
      else labelsOk (stringsSplit (stringsTrimPrefix subdomain ''*.'') CHR ''.''))"

section \<open>Regular expressions\<close>

text \<open>
  \<^verbatim>\<open>extractSubdomains\<close> compiles the pattern
  \<^verbatim>\<open>(?i)\b(?:[a-z0-9](?:[a-z0-9-]{0,61}[a-z0-9])?\.)*\<close> followed by
  \<^verbatim>\<open>regexp.QuoteMeta(domain)\<close> and \<^verbatim>\<open>\b\<close>, and calls \<^verbatim>\<open>FindAllString\<close> on every
  line. Package \<^verbatim>\<open>regexp\<close> is modelled by the syntax tree of the operators this pattern
  uses and a matcher with Go's leftmost-first rule: of the matches that begin earliest,
  the one a backtracking search finds first, where \<^verbatim>\<open>*\<close>, \<^verbatim>\<open>?\<close> and \<^verbatim>\<open>{0,n}\<close>
  are greedy. Under the flag \<^verbatim>\<open>(?i)\<close> a literal and a class match without regard to
  the case of ASCII letters; \<^verbatim>\<open>\b\<close> is the ASCII word boundary. The model is that of
  ASCII patterns and ASCII text (Go folds some letters beyond ASCII into ASCII ones, and
  refuses a pattern that is not UTF-8).
\<close>

definition isWordChar :: "char \<Rightarrow> bool" where
  "isWordChar c = (isDigit c \<or> isUpper c \<or> isLower c \<or> c = CHR ''_'')"

definition toUpperChar :: "char \<Rightarrow> char" where
  "toUpperChar c = (if isLower c then char_of (of_char c - (32::nat)) else c)"

datatype regex =
    Lit char
  | Class "(char \<times> char) list"
  | WordBoundary
  | Empty
  | Cat regex regex
  | Star regex
  | Quest regex
  | Repeat nat regex

definition litMatch :: "char \<Rightarrow> char \<Rightarrow> bool" where
  "litMatch c x = (toLowerChar x = toLowerChar c)"

definition inRanges :: "(char \<times> char) list \<Rightarrow> char \<Rightarrow> bool" where
  "inRanges rs c = list_ex (\<lambda>(lo, hi). lo \<le> c \<and> c \<le> hi) rs"

definition classMatch :: "(char \<times> char) list \<Rightarrow> char \<Rightarrow> bool" where
  "classMatch rs x = (inRanges rs x \<or> inRanges rs (toLowerChar x) \<or> inRanges rs (toUpperChar x))"

text \<open>
  A position in the text is the pair of whether the byte before it is a word character
  (false at the start of the text) and the text from it on. \<open>rmatch r st\<close> lists the
  positions at which a match of \<open>r\<close> begun at \<open>st\<close> can end, in the order in which a
  backtracking search reaches them. \<open>Repeat n r\<close> is \<^verbatim>\<open>r{0,n}\<close>. An iteration of
  \<^verbatim>\<open>*\<close> that consumes nothing is not repeated.
\<close>

fun rsize :: "regex \<Rightarrow> nat" where
  "rsize (Cat r1 r2) = Suc (rsize r1 + rsize r2)"
| "rsize (Star r) = Suc (rsize r)"
| "rsize (Quest r) = Suc (rsize r)"
| "rsize (Repeat n r) = Suc (n + rsize r)"
| "rsize r = 0"

function rmatch :: "regex \<Rightarrow> bool \<times> string \<Rightarrow> (bool \<times> string) list" where
  "rmatch (Lit c) (p, s) =
     (case s of [] \<Rightarrow> [] | x # xs \<Rightarrow> if litMatch c x then [(isWordChar x, xs)] else [])"
| "rmatch (Class rs) (p, s) =
     (case s of [] \<Rightarrow> [] | x # xs \<Rightarrow> if classMatch rs x then [(isWordChar x, xs)] else [])"
| "rmatch WordBoundary (p, s) =
     (if p \<noteq> (case s of [] \<Rightarrow> False | x # xs \<Rightarrow> isWordChar x) then [(p, s)] else [])"
| "rmatch Empty st = [st]"
| "rmatch (Cat r1 r2) st = concat (map (rmatch r2) (rmatch r1 st))"
| "rmatch (Quest r) st = rmatch r st @ [st]"
| "rmatch (Repeat n r) st =
     (if n = 0 then [st]
      else concat (map (rmatch (Repeat (n - 1) r)) (rmatch r st)) @ [st])"
| "rmatch (Star r) (p, s) =
     concat (map (rmatch (Star r))
                 (filter (\<lambda>(p', s'). length s' < length s) (rmatch r (p, s)))) @ [(p, s)]"
  by pat_completeness auto
termination
  by (relation "(\<lambda>(r, st). rsize r) <*mlex*> measure (\<lambda>(r, p, s). length s)")
     (auto simp: wf_mlex mlex_less mlex_leq)

text \<open>
  The search of \<^verbatim>\<open>doExecute\<close>: the leftmost position at or after \<open>pos\<close> where the
  expression matches, with the first match of the backtracking order there. \<open>search\<close>
  gives the number of bytes skipped and the length of the match, \<open>doExecute\<close> the start
  and the end of the match as indices of the text.
\<close>

fun search :: "regex \<Rightarrow> bool \<times> string \<Rightarrow> (nat \<times> nat) option" where
  "search re (p, []) =
     (case rmatch re (p, []) of [] \<Rightarrow> None | (p', s') # _ \<Rightarrow> Some (0, 0))"
| "search re (p, x # xs) =
     (case rmatch re (p, x # xs) of
        [] \<Rightarrow> map_option (\<lambda>(i, n). (Suc i, n)) (search re (isWordChar x, xs))
      | (p', s') # _ \<Rightarrow> Some (0, length (x # xs) - length s'))"

definition doExecute :: "regex \<Rightarrow> string \<Rightarrow> nat \<Rightarrow> (nat \<times> nat) option" where
  "doExecute re s pos =
     map_option (\<lambda>(i, n). (pos + i, pos + i + n))
       (search re (0 < pos \<and> isWordChar (s ! (pos - 1)), drop pos s))"

definition substr :: "string \<Rightarrow> nat \<Rightarrow> nat \<Rightarrow> string" where
  "substr s m0 m1 = take (m1 - m0) (drop m0 s)"

text \<open>
  The loop of \<^verbatim>\<open>allMatches\<close> behind \<^verbatim>\<open>FindAllString(s, -1)\<close>: successive matches
  that do not overlap; an empty match that abuts the match before it is dropped, and after
  an empty match the search moves on by one byte. (The bound on the number of matches,
  \<^verbatim>\<open>len(s) + 1\<close> for the argument \<^verbatim>\<open>-1\<close>, is never reached before the end of the text.)
\<close>

function allMatches :: "regex \<Rightarrow> string \<Rightarrow> nat \<Rightarrow> int \<Rightarrow> string list" where
  "allMatches re s pos prevMatchEnd =
     (if pos \<le> length s then
        (case doExecute re s pos of
           None \<Rightarrow> []
         | Some (m0, m1) \<Rightarrow>
             if m1 = pos then
               (if int m0 = prevMatchEnd then [] else [substr s m0 m1])
                 @ allMatches re s (pos + 1) (int m1)
             else substr s m0 m1 # allMatches re s m1 (int m1))
      else [])"
  by pat_completeness auto
termination
  by (relation "measure (\<lambda>(re, s, pos, prev). Suc (length s) - pos)")
     (auto simp: doExecute_def)

definition findAllString :: "regex \<Rightarrow> string \<Rightarrow> string list" where
  "findAllString re s = allMatches re s 0 (- 1)"

section \<open>Extractor\<close>

text \<open>
  The pattern of \<^verbatim>\<open>extractSubdomains\<close> (main.go, line 125). \<open>literal\<close> is what
  \<^verbatim>\<open>regexp.QuoteMeta(domain)\<close> parses to: the bytes of the domain, each matched as
  itself.
\<close>

definition alnum :: "(char \<times> char) list" where
  "alnum = [(CHR ''a'', CHR ''z''), (CHR ''0'', CHR ''9'')]"

definition alnumHyphen :: "(char \<times> char) list" where
  "alnumHyphen = [(CHR ''a'', CHR ''z''), (CHR ''0'', CHR ''9''), (CHR ''-'', CHR ''-'')]"

definition labelRegex :: regex where
  "labelRegex =
     Cat (Class alnum)
         (Cat (Quest (Cat (Repeat 61 (Class alnumHyphen)) (Class alnum))) (Lit CHR ''.''))"

definition literal :: "string \<Rightarrow> regex" where
  "literal d = foldr (\<lambda>c r. Cat (Lit c) r) d Empty"

definition subdomainPattern :: "string \<Rightarrow> regex" where
  "subdomainPattern domain =
     Cat WordBoundary (Cat (Star labelRegex) (Cat (literal domain) WordBoundary))"

text \<open>
  \<^verbatim>\<open>extractSubdomains\<close> (main.go, lines 123 to 149). The map \<^verbatim>\<open>subdomainSet\<close> is the
  list of its keys, without repetition; sorting it gives the same sequence whatever the
  order of the keys. \<open>addMatch\<close> is the body of the innermost loop. \<^verbatim>\<open>sort.Strings\<close>
  orders strings byte by byte, as the lexicographic order on \<^typ>\<open>string\<close> does.
\<close>

definition addMatch :: "string \<Rightarrow> string list \<Rightarrow> string \<Rightarrow> string list" where
  "addMatch domain subdomainSet match =
     (let subdomain = stringsTrimPrefix (stringsToLower (stringsTrimSpace match)) ''*.''
      in if isValidSubdomain subdomain \<and> stringsContains subdomain domain
         then List.insert subdomain subdomainSet else subdomainSet)"

definition extractSubdomains :: "string \<Rightarrow> string list \<Rightarrow> string list" where
  "extractSubdomains domain nameValues =
     (let pattern = subdomainPattern domain;
          subdomainSet =
            foldl (\<lambda>set1 nameValue.
                     foldl (\<lambda>set2 entry. foldl (addMatch domain) set2 (findAllString pattern entry))
                           set1 (stringsSplit nameValue (CHR 0x0A)))
                  [] nameValues
      in sort subdomainSet)"

section \<open>Resilient fetcher\<close>

text \<open>
  The fields of \<^verbatim>\<open>SubHunter\<close> that the modelled functions read or write; Go's
  \<^verbatim>\<open>int\<close> is \<^typ>\<open>int\<close> (no count here comes near 64 bits). The HTTP client, its
  timeout and the mutex have no field: what the network answers is a parameter of the
  model, and the mutex makes the steps below atomic.
\<close>

record SubHunter =
  concurrency :: int
  silent :: bool
  totalFound :: int
  maxRetries :: int

definition NewSubHunter :: "int \<Rightarrow> int \<Rightarrow> bool \<Rightarrow> SubHunter" where
  "NewSubHunter timeout concurrency' silent' =
     \<lparr>concurrency = concurrency', silent = silent', totalFound = 0, maxRetries = 3\<rparr>"

text \<open>
  What \<^verbatim>\<open>s.client.Do(req)\<close> can give: an error, or a response with a status code whose
  body is read by \<^verbatim>\<open>io.ReadAll\<close>, with an error or to its end.
\<close>

datatype readResult = ReadError string | Body string

datatype doResult = DoError string | Response int readResult

datatype error =
    RequestError string
  | TransportError string
  | HTTPStatus int
  | BodyReadError string
  | HTMLInsteadOfJSON
  | JSONDecodeFailed string
  | MaxRetriesExceeded "error option"

text \<open>
  The library calls whose code is not part of the repository are parameters:
  \<open>newRequest url\<close> is the error of \<^verbatim>\<open>http.NewRequest("GET", url, nil)\<close>, if any, and
  \<open>jsonUnmarshal body\<close> is \<^verbatim>\<open>json.Unmarshal(body, &results)\<close>, an error message or the
  \<^verbatim>\<open>name_value\<close> field of each record.
\<close>

record env =
  newRequest :: "string \<Rightarrow> string option"
  jsonUnmarshal :: "string \<Rightarrow> string + string list"

text \<open>The effects of a fetch, in the order in which they happen. Log lines are left out.\<close>

datatype event = Sleep int | Request string | Print string

definition queryURL :: "string \<Rightarrow> string" where
  "queryURL domain = ''https://crt.sh/?q=%.'' @ domain @ ''&output=json''"

text \<open>
  \<^verbatim>\<open>queryAPI\<close> (main.go, lines 151 to 213). \<open>queryLoop\<close> is the retry loop from the
  value \<open>attempt\<close> of its counter on, with the last error and the events so far;
  \<open>clientDo k\<close> is the outcome of the request of attempt \<open>k\<close>. A sleep lasts
  \<^verbatim>\<open>time.Duration(attempt) * time.Second\<close>, counted here in seconds.
\<close>

function queryLoop ::
  "env \<Rightarrow> (int \<Rightarrow> doResult) \<Rightarrow> SubHunter \<Rightarrow> string \<Rightarrow> int \<Rightarrow> error option \<Rightarrow> event list
     \<Rightarrow> (error + string list) \<times> event list" where
  "queryLoop e clientDo s domain attempt lastErr evs =
     (if attempt \<le> maxRetries s then
        (let evs1 = (if attempt > 1 then evs @ [Sleep attempt] else evs) in
         case newRequest e (queryURL domain) of
           Some err \<Rightarrow> (Inl (RequestError err), evs1)
         | None \<Rightarrow>
             (let evs2 = evs1 @ [Request (queryURL domain)] in
              case clientDo attempt of
                DoError err \<Rightarrow>
                  queryLoop e clientDo s domain (attempt + 1) (Some (TransportError err)) evs2
              | Response statusCode rd \<Rightarrow>
                  if statusCode \<noteq> 200 then
                    queryLoop e clientDo s domain (attempt + 1) (Some (HTTPStatus statusCode)) evs2
                  else
                    (case rd of
                       ReadError err \<Rightarrow>
                         queryLoop e clientDo s domain (attempt + 1) (Some (BodyReadError err)) evs2
                     | Body body \<Rightarrow>
                         if stringsHasPrefix (stringsTrimSpace body) ''<'' then
                           queryLoop e clientDo s domain (attempt + 1) (Some HTMLInsteadOfJSON) evs2
                         else
                           (case jsonUnmarshal e body of
                              Inl err \<Rightarrow>
                                queryLoop e clientDo s domain (attempt + 1)
                                  (Some (JSONDecodeFailed err)) evs2
                            | Inr nameValues \<Rightarrow>
                                (Inr (extractSubdomains domain nameValues), evs2)))))
      else (Inl (MaxRetriesExceeded lastErr), evs))"
  by pat_completeness auto
termination
  by (relation "measure (\<lambda>(e, clientDo, s, domain, attempt, lastErr, evs).
                  nat (maxRetries s + 1 - attempt))") auto

definition queryAPI ::
  "env \<Rightarrow> (int \<Rightarrow> doResult) \<Rightarrow> SubHunter \<Rightarrow> string \<Rightarrow> (error + string list) \<times> event list" where
  "queryAPI e clientDo s domain = queryLoop e clientDo s domain 1 None []"

text \<open>
  The verdict of the loop body on the outcome of one request (main.go, lines 172 to
  209): the error it records before it goes on to the next attempt, or the
  \<^verbatim>\<open>name_value\<close> fields it extracts from. \<open>requests\<close> counts the requests sent.
\<close>

definition attemptOutcome :: "env \<Rightarrow> doResult \<Rightarrow> error + string list" where
  "attemptOutcome e r =
     (case r of
        DoError err \<Rightarrow> Inl (TransportError err)
      | Response statusCode rd \<Rightarrow>
          if statusCode \<noteq> 200 then Inl (HTTPStatus statusCode)
          else
            (case rd of
               ReadError err \<Rightarrow> Inl (BodyReadError err)
             | Body body \<Rightarrow>
                 if stringsHasPrefix (stringsTrimSpace body) ''<'' then Inl HTMLInsteadOfJSON
                 else
                   (case jsonUnmarshal e body of
                      Inl err \<Rightarrow> Inl (JSONDecodeFailed err)
                    | Inr nameValues \<Rightarrow> Inr nameValues)))"

definition requests :: "event list \<Rightarrow> nat" where
  "requests evs = length (filter (\<lambda>ev. case ev of Request u \<Rightarrow> True | _ \<Rightarrow> False) evs)"

section \<open>Domain processor\<close>

text \<open>
  \<^verbatim>\<open>printResult\<close> and \<^verbatim>\<open>processDomain\<close> (main.go, lines 99 to 105 and 215 to 244).
  The result is the returned slice (\<^verbatim>\<open>nil\<close> is the empty list), the \<^verbatim>\<open>SubHunter\<close>
  after the call and the events of the call.
\<close>

definition pink :: string where
  "pink = CHR 0x1B # ''[95m''"

definition reset :: string where
  "reset = CHR 0x1B # ''[0m''"

definition printResult :: "SubHunter \<Rightarrow> string \<Rightarrow> event" where
  "printResult s subdomain =
     (if \<not> silent s then Print (pink @ ''[R]'' @ reset @ '' '' @ subdomain)
      else Print subdomain)"

definition processDomain ::
  "env \<Rightarrow> (int \<Rightarrow> doResult) \<Rightarrow> SubHunter \<Rightarrow> string \<Rightarrow> bool
     \<Rightarrow> string list \<times> SubHunter \<times> event list" where
  "processDomain e clientDo s domain0 showResults =
     (let domain = stringsToLower (stringsTrimSpace domain0) in
      if domain = [] then ([], s, [])
      else
        (case queryAPI e clientDo s domain of
           (Inl err, evs) \<Rightarrow> ([], s, evs)
         | (Inr subdomains, evs) \<Rightarrow>
             (let count = int (length subdomains);
                  s' = s\<lparr>totalFound := totalFound s + count\<rparr>
              in (subdomains, s',
                  if count > 0 \<and> showResults then evs @ map (printResult s') subdomains
                  else evs))))"

section \<open>Batch orchestrator\<close>

text \<open>
  \<^verbatim>\<open>processDomainsFromFile\<close> (main.go, lines 246 to 315). The file is a parameter:
  the error of \<^verbatim>\<open>os.Open\<close>, or the lines the scanner yields. The network is a
  parameter too: \<open>world i k\<close> is the outcome of the request of attempt \<open>k\<close> for the
  domain at index \<open>i\<close> of the list, so that a run in either mode meets the same answers.
  The map \<^verbatim>\<open>allSubdomains\<close> is the list of its keys, as in the extractor.
\<close>

definition loadDomains :: "string list \<Rightarrow> string list" where
  "loadDomains lines = filter (\<lambda>domain. domain \<noteq> []) (map stringsTrimSpace lines)"

definition mergeSubs :: "string list \<Rightarrow> string list \<Rightarrow> string list" where
  "mergeSubs keys subs = foldl (\<lambda>m sub. List.insert sub m) keys subs"

text \<open>The sequential loop, from the domain at index \<open>i\<close> on.\<close>

fun runSequential ::
  "env \<Rightarrow> (nat \<Rightarrow> int \<Rightarrow> doResult) \<Rightarrow> nat \<Rightarrow> string list \<Rightarrow> string list \<times> SubHunter
     \<Rightarrow> string list \<times> SubHunter" where
  "runSequential e world i [] (keys, s) = (keys, s)"
| "runSequential e world i (domain # domains) (keys, s) =
     (case processDomain e (world i) s domain False of
        (subs, s', evs) \<Rightarrow> runSequential e world (Suc i) domains (mergeSubs keys subs, s'))"

text \<open>
  The concurrent branch starts one goroutine for each domain. A goroutine waits to send
  on the channel \<^verbatim>\<open>semaphore\<close>, whose buffer holds \<^verbatim>\<open>s.concurrency\<close> tokens; runs
  \<^verbatim>\<open>processDomain\<close>, which adds its count to \<^verbatim>\<open>totalFound\<close> under \<^verbatim>\<open>s.mu\<close>; merges
  its result into \<^verbatim>\<open>allSubdomains\<close> under \<^verbatim>\<open>mu\<close>; and on return takes a token back
  from the channel and calls \<^verbatim>\<open>wg.Done\<close>. These are the four steps of a worker. A send
  on a channel blocks while its buffer is full; a channel without buffer (capacity 0) has
  no receiver here before a send has gone through, so a send on it blocks too.
\<close>

datatype worker = Waiting | Running | Fetched "string list" | Merged | Finished

record batch =
  workers :: "worker list"
  semaphore :: nat
  allSubdomains :: "string list"
  hunter :: SubHunter

definition workerStep ::
  "env \<Rightarrow> (nat \<Rightarrow> int \<Rightarrow> doResult) \<Rightarrow> string list \<Rightarrow> batch \<Rightarrow> nat \<Rightarrow> batch" where
  "workerStep e world domains b i =
     (if i < length (workers b) then
        (case workers b ! i of
           Waiting \<Rightarrow>
             if int (semaphore b) < concurrency (hunter b)
             then b\<lparr>workers := (workers b)[i := Running], semaphore := Suc (semaphore b)\<rparr>
             else b
         | Running \<Rightarrow>
             (case processDomain e (world i) (hunter b) (domains ! i) False of
                (subs, s', evs) \<Rightarrow> b\<lparr>workers := (workers b)[i := Fetched subs], hunter := s'\<rparr>)
         | Fetched subs \<Rightarrow>
             b\<lparr>workers := (workers b)[i := Merged],
               allSubdomains := mergeSubs (allSubdomains b) subs\<rparr>
         | Merged \<Rightarrow>
             b\<lparr>workers := (workers b)[i := Finished], semaphore := semaphore b - 1\<rparr>
         | Finished \<Rightarrow> b)
      else b)"

text \<open>
  A schedule is the sequence of the workers' indices in the order in which they are let
  take their next step; a worker that is blocked or has finished lets its turn pass.
  Every interleaving of the goroutines is the run of some schedule.
\<close>

definition startBatch :: "SubHunter \<Rightarrow> string list \<Rightarrow> batch" where
  "startBatch s domains =
     \<lparr>workers = map (\<lambda>domain. Waiting) domains, semaphore = 0, allSubdomains = [], hunter = s\<rparr>"

definition runSchedule ::
  "env \<Rightarrow> (nat \<Rightarrow> int \<Rightarrow> doResult) \<Rightarrow> string list \<Rightarrow> nat list \<Rightarrow> batch \<Rightarrow> batch" where
  "runSchedule e world domains sched b = foldl (workerStep e world domains) b sched"

definition holdsToken :: "worker \<Rightarrow> bool" where
  "holdsToken w = (case w of Waiting \<Rightarrow> False | Finished \<Rightarrow> False | _ \<Rightarrow> True)"

definition inFlight :: "batch \<Rightarrow> nat" where
  "inFlight b = length (filter holdsToken (workers b))"

definition allFinished :: "batch \<Rightarrow> bool" where
  "allFinished b = list_all (\<lambda>w. w = Finished) (workers b)"

text \<open>The end of the function: the keys sorted, and \<^verbatim>\<open>totalFound\<close> set to their number.\<close>

definition finish :: "string list \<times> SubHunter \<Rightarrow> string list \<times> SubHunter" where
  "finish r =
     (case r of (keys, s) \<Rightarrow>
        (let result = sort keys in (result, s\<lparr>totalFound := int (length result)\<rparr>)))"

text \<open>
  A call ends in one of three ways: it returns the slice, with the \<^verbatim>\<open>SubHunter\<close> as it
  is then; \<^verbatim>\<open>make\<close> panics on a negative capacity; or \<^verbatim>\<open>wg.Wait\<close> is still waiting
  when the schedule is used up.
\<close>

datatype outcome = Returned "string list \<times> SubHunter" | MakeChanPanic | StillWaiting

definition processDomainsFromFile ::
  "env \<Rightarrow> (nat \<Rightarrow> int \<Rightarrow> doResult) \<Rightarrow> SubHunter \<Rightarrow> string + string list \<Rightarrow> bool \<Rightarrow> nat list
     \<Rightarrow> outcome" where
  "processDomainsFromFile e world s file concurrent sched =
     (case file of
        Inl err \<Rightarrow> Returned ([], s)
      | Inr lines \<Rightarrow>
          (let domains = loadDomains lines in
           if concurrent \<and> length domains > 1 then
             (if concurrency s < 0 then MakeChanPanic
              else
                (let b = runSchedule e world domains sched (startBatch s domains) in
                 if allFinished b then Returned (finish (allSubdomains b, hunter b))
                 else StillWaiting))
           else Returned (finish (runSequential e world 0 domains ([], s)))))"

text \<open>
  For the statements about a run: \<open>perDomain\<close> is the slice that \<^verbatim>\<open>processDomain\<close>
  returns for the domain at index \<open>i\<close>; \<open>merged\<close> says that a worker has put its
  result into the map; \<open>progress\<close> counts the steps the workers have taken.
  \<open>batchInv\<close> is what holds of the state of the concurrent branch at every moment: one
  worker for each domain, as many tokens in the channel as workers between their send and
  their receive, a \<^verbatim>\<open>SubHunter\<close> that differs from the initial one in \<^verbatim>\<open>totalFound\<close>
  at most, each fetched result that of its domain, and the keys of the map those of the
  results merged so far.
\<close>

definition perDomain ::
  "env \<Rightarrow> (nat \<Rightarrow> int \<Rightarrow> doResult) \<Rightarrow> SubHunter \<Rightarrow> string list \<Rightarrow> nat \<Rightarrow> string list" where
  "perDomain e world s domains i = fst (processDomain e (world i) s (domains ! i) False)"

definition merged :: "worker \<Rightarrow> bool" where
  "merged w = (w = Merged \<or> w = Finished)"

fun rank :: "worker \<Rightarrow> nat" where
  "rank Waiting = 0"
| "rank Running = 1"
| "rank (Fetched subs) = 2"
| "rank Merged = 3"
| "rank Finished = 4"

definition progress :: "batch \<Rightarrow> nat" where
  "progress b = sum_list (map rank (workers b))"

definition batchInv ::
  "env \<Rightarrow> (nat \<Rightarrow> int \<Rightarrow> doResult) \<Rightarrow> SubHunter \<Rightarrow> string list \<Rightarrow> batch \<Rightarrow> bool" where
  "batchInv e world s domains b =
     (length (workers b) = length domains \<and>
      semaphore b = inFlight b \<and>
      int (semaphore b) \<le> max 0 (concurrency s) \<and>
      (\<exists>t. hunter b = s\<lparr>totalFound := t\<rparr>) \<and>
      (\<forall>i subs. i < length domains \<and> workers b ! i = Fetched subs
          \<longrightarrow> subs = perDomain e world s domains i) \<and>
      set (allSubdomains b) =
        (\<Union>i \<in> {i. i < length domains \<and> merged (workers b ! i)}.
            set (perDomain e world s domains i)) \<and>
      distinct (allSubdomains b))"

section \<open>Notions for the proofs about the matcher\<close>

text \<open>
  None of these is part of the program. \<open>plain\<close> says that an expression has no
  \<^verbatim>\<open>\b\<close>; \<open>nextWord\<close> and \<open>lastWord\<close> are the two sides of a word boundary, the
  byte after a position and the byte before it; \<open>reaches st x\<close> says that \<open>x\<close> lies
  further on in the text of \<open>st\<close>. \<open>leaves v\<close>, \<open>extendBy v\<close> and \<open>localAt\<close> state
  that a plain expression matches a prefix of the text in the same ways whatever text
  \<open>v\<close> follows it, and \<open>lowered\<close> puts the text of a position in lower case.
  \<open>wbOK\<close> is the test of \<^verbatim>\<open>\b\<close> at a position and \<open>patternBody\<close> the pattern between its two
  word boundaries. \<open>normalise\<close> is what the extractor does to a match before it tests
  it, \<open>entryStep\<close> its loop over the lines of one raw entry, \<open>standalone\<close> what holds
  of every subdomain it keeps when the target begins and ends with a word character, and
  \<open>goodKeys\<close> the invariant of its set.
\<close>

fun plain :: "regex \<Rightarrow> bool" where
  "plain WordBoundary = False"
| "plain (Cat r1 r2) = (plain r1 \<and> plain r2)"
| "plain (Star r) = plain r"
| "plain (Quest r) = plain r"
| "plain (Repeat n r) = plain r"
| "plain r = True"

definition nextWord :: "string \<Rightarrow> bool" where
  "nextWord s = (case s of [] \<Rightarrow> False | x # xs \<Rightarrow> isWordChar x)"

definition lastWord :: "bool \<Rightarrow> string \<Rightarrow> bool" where
  "lastWord p w = (if w = [] then p else isWordChar (last w))"

definition reaches :: "bool \<times> string \<Rightarrow> bool \<times> string \<Rightarrow> bool" where
  "reaches st x = (\<exists>w. snd st = w @ snd x \<and> fst x = lastWord (fst st) w)"

definition leaves :: "string \<Rightarrow> bool \<times> string \<Rightarrow> bool" where
  "leaves v x = (length v \<le> length (snd x))"

definition extendBy :: "string \<Rightarrow> bool \<times> string \<Rightarrow> bool \<times> string" where
  "extendBy v x = (fst x, snd x @ v)"

definition localAt :: "regex \<Rightarrow> bool \<times> string \<Rightarrow> bool" where
  "localAt r st =
     (\<forall>u v. snd st = u @ v \<longrightarrow>
        filter (leaves v) (rmatch r st) = map (extendBy v) (rmatch r (fst st, u)))"

definition lowered :: "bool \<times> string \<Rightarrow> bool \<times> string" where
  "lowered x = (fst x, stringsToLower (snd x))"

definition wbOK :: "bool \<times> string \<Rightarrow> bool" where
  "wbOK x = (fst x \<noteq> nextWord (snd x))"

definition patternBody :: "string \<Rightarrow> regex" where
  "patternBody d = Cat (Star labelRegex) (literal d)"

definition normalise :: "string \<Rightarrow> string" where
  "normalise m = stringsTrimPrefix (stringsToLower (stringsTrimSpace m)) ''*.''"

definition entryStep :: "string \<Rightarrow> string list \<Rightarrow> string \<Rightarrow> string list" where
  "entryStep d set1 nameValue =
     foldl (\<lambda>set2 entry. foldl (addMatch d) set2 (findAllString (subdomainPattern d) entry))
           set1 (stringsSplit nameValue (CHR 0x0A))"

definition standalone :: "string \<Rightarrow> string \<Rightarrow> bool" where
  "standalone d k =
     (isValidSubdomain k \<and> stringsContains k d \<and> k \<noteq> [] \<and> isWordChar (hd k) \<and>
      isWordChar (last k) \<and> CHR 0x0A \<notin> set k \<and> stringsToLower k = k \<and>
      (\<exists>rest. rmatch (subdomainPattern d) (False, k) = (True, []) # rest))"

definition goodKeys :: "string \<Rightarrow> string list \<Rightarrow> bool" where
  "goodKeys d ks = (distinct ks \<and> list_all (standalone d) ks)"

section \<open>Example collaborators\<close>

text \<open>
  For the runs that the theorems below evaluate: every request can be built, and the
  decoder gives one record whose \<^verbatim>\<open>name_value\<close> is the whole body.
\<close>

definition exampleEnv :: env where
  "exampleEnv = \<lparr>newRequest = (\<lambda>url. None), jsonUnmarshal = (\<lambda>body. Inr [body])\<rparr>"

text \<open>
  A network for a list of two domains: the answer for the first names two hosts, the
  answer for every other domain names the first of them again.
\<close>

definition exampleWorld :: "nat \<Rightarrow> int \<Rightarrow> doResult" where
  "exampleWorld i k =
     (if i = 0 then Response 200 (Body (''x.a.com'' @ [CHR 0x0A] @ ''y.a.com''))
      else Response 200 (Body ''x.a.com''))"

section \<open>Properties of the validator\<close>

lemma labelsOk_iff:
  "labelsOk parts = (\<forall>part \<in> set parts. 1 \<le> length part \<and> length part \<le> 63)"
  by (induction parts) (auto simp: Suc_le_eq)

lemma hasPrefix_star_dot:
  "stringsHasPrefix s ''*.'' = (\<exists>t. s = CHR ''*'' # CHR ''.'' # t)"
  by (cases s; cases "tl s") (auto simp: stringsHasPrefix_def)

lemma trimPrefix_star_dot: "stringsTrimPrefix (CHR ''*'' # CHR ''.'' # t) ''*.'' = t"
  by (simp add: stringsTrimPrefix_def stringsHasPrefix_def)

lemma isValidSubdomain_star_dot:
  "isValidSubdomain (CHR ''*'' # CHR ''.'' # t) =
     (length t \<le> 251 \<and> labelsOk (stringsSplit t CHR ''.''))"
  by (auto simp: isValidSubdomain_def trimPrefix_star_dot)

lemma isValidSubdomain_stripped:
  assumes "length t \<le> 251"
  shows "isValidSubdomain t = labelsOk (stringsSplit t CHR ''.'')"
proof (cases "stringsHasPrefix t ''*.''")
  case True
  then obtain u where t: "t = CHR ''*'' # CHR ''.'' # u"
    by (auto simp: hasPrefix_star_dot)
  with assms show ?thesis
    by (simp add: isValidSubdomain_star_dot)
next
  case False
  with assms show ?thesis
    by (cases t) (auto simp: isValidSubdomain_def stringsTrimPrefix_def)
qed

lemma split_append_nodot:
  "CHR ''.'' \<notin> set p \<Longrightarrow>
     stringsSplit (p @ CHR ''.'' # r) CHR ''.'' = p # stringsSplit r CHR ''.''"
  by (induction p) auto

lemma split_nodot: "CHR ''.'' \<notin> set p \<Longrightarrow> stringsSplit p CHR ''.'' = [p]"
  by (induction p) auto

text \<open>
  C3, as the code has it. The validator tests the total length (not empty, at most 253
  bytes) on the candidate as it was passed, the two bytes of \<^verbatim>\<open>*.\<close> included, and removes
  the prefix only then. So a candidate that begins with \<^verbatim>\<open>*.\<close> gets the verdict of the
  string without the prefix when it is itself at most 253 bytes long, and is rejected
  when it is longer.
\<close>

theorem isValidSubdomain_wildcard:
  assumes "stringsHasPrefix s ''*.''"
  shows "isValidSubdomain s =
           (length s \<le> 253 \<and> isValidSubdomain (stringsTrimPrefix s ''*.''))"
proof -
  from assms obtain t where s: "s = CHR ''*'' # CHR ''.'' # t"
    by (auto simp: hasPrefix_star_dot)
  show ?thesis
    unfolding s trimPrefix_star_dot isValidSubdomain_star_dot
    using isValidSubdomain_stripped [of t] by auto
qed

theorem isValidSubdomain_wildcard_witness:
  "stringsHasPrefix ''*.a.example.com'' ''*.'' \<and> isValidSubdomain ''*.a.example.com'' \<and>
   isValidSubdomain (stringsTrimPrefix ''*.a.example.com'' ''*.'')"
  using isValidSubdomain_wildcard [of "''*.a.example.com''"]
  by (simp add: stringsHasPrefix_def stringsTrimPrefix_def isValidSubdomain_def)

text \<open>
  C3 as it is stated fails: a name of 253 bytes with four good labels is valid, and the
  same name behind \<^verbatim>\<open>*.\<close> has 255 bytes and is rejected, so the two bytes of the
  wildcard do count toward the limit.
\<close>

theorem isValidSubdomain_wildcard_counterexample:
  "stringsHasPrefix
     (''*.'' @ replicate 63 CHR ''a'' @ ''.'' @ replicate 63 CHR ''a'' @ ''.'' @
      replicate 63 CHR ''a'' @ ''.'' @ replicate 61 CHR ''a'') ''*.'' \<and>
   isValidSubdomain
     (replicate 63 CHR ''a'' @ ''.'' @ replicate 63 CHR ''a'' @ ''.'' @
      replicate 63 CHR ''a'' @ ''.'' @ replicate 61 CHR ''a'') \<and>
   \<not> isValidSubdomain
     (''*.'' @ replicate 63 CHR ''a'' @ ''.'' @ replicate 63 CHR ''a'' @ ''.'' @
      replicate 63 CHR ''a'' @ ''.'' @ replicate 61 CHR ''a'')"
  by (simp add: isValidSubdomain_def stringsTrimPrefix_def stringsHasPrefix_def
      split_append_nodot split_nodot)

text \<open>
  C10. The validator looks at lengths only: a string is accepted exactly when it has
  between 1 and 253 bytes and every label between the dots, after one leading \<^verbatim>\<open>*.\<close>
  is removed, has between 1 and 63 bytes, whatever the bytes are. Labels with an
  underscore, an exclamation mark, a space or a lone star pass, and in \<^verbatim>\<open>*.*.a.com\<close>
  only the first \<^verbatim>\<open>*.\<close> is removed, so that the first label judged is \<^verbatim>\<open>*\<close>.
\<close>

theorem isValidSubdomain_lengths_only:
  "(isValidSubdomain s =
      (1 \<le> length s \<and> length s \<le> 253 \<and>
       (\<forall>part \<in> set (stringsSplit (stringsTrimPrefix s ''*.'') CHR ''.'').
           1 \<le> length part \<and> length part \<le> 63))) \<and>
   isValidSubdomain ''a_b.c!d.e f.*'' \<and>
   stringsSplit (stringsTrimPrefix ''*.*.a.com'' ''*.'') CHR ''.'' = [''*'', ''a'', ''com''] \<and>
   isValidSubdomain ''*.*.a.com''"
  by (auto simp: isValidSubdomain_def labelsOk_iff Suc_le_eq stringsTrimPrefix_def
      stringsHasPrefix_def)

theorem isValidSubdomain_lengths_only_witness:
  "isValidSubdomain ''my_host.example.com'' \<and>
   stringsSplit (stringsTrimPrefix ''my_host.example.com'' ''*.'') CHR ''.'' =
     [''my_host'', ''example'', ''com'']"
  using isValidSubdomain_lengths_only [of "''my_host.example.com''"]
  by (simp add: stringsTrimPrefix_def stringsHasPrefix_def)

section \<open>Properties of the fetcher\<close>


declare queryLoop.simps [simp del]

lemma queryLoop_step:
  assumes "attempt \<le> maxRetries s" and "newRequest e (queryURL domain) = None"
  shows "queryLoop e clientDo s domain attempt lastErr evs =
           (case attemptOutcome e (clientDo attempt) of
              Inl err \<Rightarrow>
                queryLoop e clientDo s domain (attempt + 1) (Some err)
                  ((if attempt > 1 then evs @ [Sleep attempt] else evs) @ [Request (queryURL domain)])
            | Inr nameValues \<Rightarrow>
                (Inr (extractSubdomains domain nameValues),
                 (if attempt > 1 then evs @ [Sleep attempt] else evs) @ [Request (queryURL domain)]))"
  using assms
  by (subst queryLoop.simps)
     (simp add: attemptOutcome_def Let_def split: doResult.splits readResult.splits sum.splits)

lemma queryLoop_end:
  "\<not> attempt \<le> maxRetries s \<Longrightarrow>
     queryLoop e clientDo s domain attempt lastErr evs = (Inl (MaxRetriesExceeded lastErr), evs)"
  by (subst queryLoop.simps) simp

lemma queryLoop_request_error:
  "attempt \<le> maxRetries s \<Longrightarrow> newRequest e (queryURL domain) = Some err \<Longrightarrow>
     queryLoop e clientDo s domain attempt lastErr evs =
       (Inl (RequestError err), if attempt > 1 then evs @ [Sleep attempt] else evs)"
  by (subst queryLoop.simps) (simp add: Let_def)

lemma requests_simps [simp]:
  "requests [] = 0"
  "requests (evs @ evs') = requests evs + requests evs'"
  "requests (Request u # evs) = Suc (requests evs)"
  "requests (Sleep n # evs) = requests evs"
  by (simp_all add: requests_def)

text \<open>
  C1, as the code has it. With \<^verbatim>\<open>maxRetries = 3\<close>, as \<^verbatim>\<open>NewSubHunter\<close> sets it, the
  fetcher sends at most 3 requests. An attempt succeeds when the status code is 200 (no
  other code, 2xx or not), the trimmed body does not begin with \<^verbatim>\<open><\<close> and the decoder
  accepts it; the first attempt that succeeds returns the extracted subdomains and no
  further request is sent. When all 3 attempts fail, the result is one error that wraps the
  error of the third. (When the request cannot be built, that error is returned at once
  and nothing is sent.)
\<close>

theorem queryAPI_retries:
  assumes "maxRetries s = 3"
  shows "requests (snd (queryAPI e clientDo s domain)) \<le> 3 \<and>
    (case newRequest e (queryURL domain) of
       Some err \<Rightarrow>
         queryAPI e clientDo s domain = (Inl (RequestError err), [])
     | None \<Rightarrow>
    (case attemptOutcome e (clientDo 1) of
       Inr nameValues \<Rightarrow>
         fst (queryAPI e clientDo s domain) = Inr (extractSubdomains domain nameValues) \<and>
         requests (snd (queryAPI e clientDo s domain)) = 1
     | Inl err1 \<Rightarrow>
         (case attemptOutcome e (clientDo 2) of
            Inr nameValues \<Rightarrow>
              fst (queryAPI e clientDo s domain) = Inr (extractSubdomains domain nameValues) \<and>
              requests (snd (queryAPI e clientDo s domain)) = 2
          | Inl err2 \<Rightarrow>
              (case attemptOutcome e (clientDo 3) of
                 Inr nameValues \<Rightarrow>
                   fst (queryAPI e clientDo s domain) = Inr (extractSubdomains domain nameValues) \<and>
                   requests (snd (queryAPI e clientDo s domain)) = 3
               | Inl err3 \<Rightarrow>
                   fst (queryAPI e clientDo s domain) = Inl (MaxRetriesExceeded (Some err3)) \<and>
                   requests (snd (queryAPI e clientDo s domain)) = 3))))"
proof (cases "newRequest e (queryURL domain)")
  case None
  with assms show ?thesis
    by (simp add: queryAPI_def queryLoop_step queryLoop_end split: sum.splits)
next
  case (Some err)
  with assms show ?thesis
    by (simp add: queryAPI_def queryLoop_request_error)
qed

lemma extract_www: "extractSubdomains ''example.com'' [''www.example.com''] = [''www.example.com'']"
  by code_simp

lemma trimSpace_www: "stringsTrimSpace ''www.example.com'' = ''www.example.com''"
  by code_simp

theorem queryAPI_retries_witness:
  "maxRetries (NewSubHunter 60 5 False) = 3 \<and>
   fst (queryAPI exampleEnv
          (\<lambda>k. if k = 2 then Response 200 (Body ''www.example.com'') else DoError ''timeout'')
          (NewSubHunter 60 5 False) ''example.com'') = Inr [''www.example.com''] \<and>
   requests (snd (queryAPI exampleEnv
          (\<lambda>k. if k = 2 then Response 200 (Body ''www.example.com'') else DoError ''timeout'')
          (NewSubHunter 60 5 False) ''example.com'')) = 2"
  using queryAPI_retries [of "NewSubHunter 60 5 False" exampleEnv
          "\<lambda>k. if k = 2 then Response 200 (Body ''www.example.com'') else DoError ''timeout''"
          "''example.com''"]
  by (simp add: NewSubHunter_def exampleEnv_def attemptOutcome_def trimSpace_www
      stringsHasPrefix_def extract_www)

text \<open>
  C1 as it is stated fails: a response with status 201, a 2xx code, whose body is not HTML
  and decodes, is not a success. Three such responses give the error of exhausted
  retries that wraps \<^verbatim>\<open>HTTP 201\<close>, after three requests.
\<close>

theorem queryAPI_retries_counterexample:
  "(200::int) \<le> 201 \<and> (201::int) < 300 \<and>
   \<not> stringsHasPrefix (stringsTrimSpace ''www.example.com'') ''<'' \<and>
   jsonUnmarshal exampleEnv ''www.example.com'' = Inr [''www.example.com''] \<and>
   queryAPI exampleEnv (\<lambda>k. Response 201 (Body ''www.example.com''))
          (NewSubHunter 60 5 False) ''example.com'' =
     (Inl (MaxRetriesExceeded (Some (HTTPStatus 201))),
      [Request (queryURL ''example.com''), Sleep 2, Request (queryURL ''example.com''),
       Sleep 3, Request (queryURL ''example.com'')])"
  by (simp add: NewSubHunter_def exampleEnv_def trimSpace_www
      stringsHasPrefix_def queryAPI_def queryLoop.simps)

text \<open>
  C2, evaluated on the code. On three failed attempts there is no sleep before the first
  request, and the sleeps before the second and the third last 2 and 3 seconds (the
  value of the counter \<^verbatim>\<open>attempt\<close>), not 1 and 2.
\<close>

theorem queryAPI_backoff_sleeps:
  "snd (queryAPI exampleEnv (\<lambda>k. DoError ''connection refused'')
          (NewSubHunter 60 5 False) ''example.com'') =
     [Request (queryURL ''example.com''), Sleep 2, Request (queryURL ''example.com''),
      Sleep 3, Request (queryURL ''example.com'')]"
  by (simp add: NewSubHunter_def exampleEnv_def queryAPI_def queryLoop.simps)

text \<open>
  C7. A response with status 200 whose body, trimmed as \<^verbatim>\<open>strings.TrimSpace\<close> trims
  it (white space beyond ASCII included), begins with \<^verbatim>\<open><\<close> is a failure, whatever
  the body: the loop records \<^verbatim>\<open>API returned HTML instead of JSON\<close> as the last error
  and goes on with the next value of the counter, and when that was the last attempt the
  call fails with the error that wraps it.
\<close>

theorem html_body_is_failure:
  assumes "attempt \<le> maxRetries s" and "newRequest e (queryURL domain) = None"
    and "clientDo attempt = Response 200 (Body body)"
    and "stringsHasPrefix (stringsTrimSpace body) ''<''"
  shows "attemptOutcome e (clientDo attempt) = Inl HTMLInsteadOfJSON \<and>
         queryLoop e clientDo s domain attempt lastErr evs =
           queryLoop e clientDo s domain (attempt + 1) (Some HTMLInsteadOfJSON)
             ((if attempt > 1 then evs @ [Sleep attempt] else evs) @ [Request (queryURL domain)]) \<and>
         (attempt = maxRetries s \<longrightarrow>
            fst (queryLoop e clientDo s domain attempt lastErr evs) =
              Inl (MaxRetriesExceeded (Some HTMLInsteadOfJSON)))"
proof -
  have out: "attemptOutcome e (clientDo attempt) = Inl HTMLInsteadOfJSON"
    using assms by (simp add: attemptOutcome_def)
  have step: "queryLoop e clientDo s domain attempt lastErr evs =
           queryLoop e clientDo s domain (attempt + 1) (Some HTMLInsteadOfJSON)
             ((if attempt > 1 then evs @ [Sleep attempt] else evs) @ [Request (queryURL domain)])"
    using assms(1,2) out by (simp add: queryLoop_step)
  have "fst (queryLoop e clientDo s domain attempt lastErr evs) =
          Inl (MaxRetriesExceeded (Some HTMLInsteadOfJSON))" if "attempt = maxRetries s"
    unfolding step using that by (simp add: queryLoop_end)
  with out step show ?thesis by blast
qed

lemma trimSpace_html: "stringsTrimSpace (CHR 0xC2 # CHR 0xA0 # CHR 0x0A # ''  <html>Service Unavailable</html>'') = ''<html>Service Unavailable</html>''"
  by code_simp

text \<open>
  Three answers with status 200 whose body is an HTML page behind a no-break space
  (U+00A0), a line feed and two spaces.
\<close>

theorem html_body_is_failure_witness:
  "fst (queryAPI exampleEnv
          (\<lambda>k. Response 200 (Body (CHR 0xC2 # CHR 0xA0 # CHR 0x0A # ''  <html>Service Unavailable</html>'')))
          (NewSubHunter 60 5 False) ''example.com'') = Inl (MaxRetriesExceeded (Some HTMLInsteadOfJSON))"
  using html_body_is_failure [of 1 "NewSubHunter 60 5 False" exampleEnv "''example.com''"
          "\<lambda>k. Response 200 (Body (CHR 0xC2 # CHR 0xA0 # CHR 0x0A # ''  <html>Service Unavailable</html>''))"
          "CHR 0xC2 # CHR 0xA0 # CHR 0x0A # ''  <html>Service Unavailable</html>''" None "[]"]
    html_body_is_failure [of 2 "NewSubHunter 60 5 False" exampleEnv "''example.com''"
          "\<lambda>k. Response 200 (Body (CHR 0xC2 # CHR 0xA0 # CHR 0x0A # ''  <html>Service Unavailable</html>''))"
          "CHR 0xC2 # CHR 0xA0 # CHR 0x0A # ''  <html>Service Unavailable</html>''" "Some HTMLInsteadOfJSON" "[Request (queryURL ''example.com'')]"]
    html_body_is_failure [of 3 "NewSubHunter 60 5 False" exampleEnv "''example.com''"
          "\<lambda>k. Response 200 (Body (CHR 0xC2 # CHR 0xA0 # CHR 0x0A # ''  <html>Service Unavailable</html>''))"
          "CHR 0xC2 # CHR 0xA0 # CHR 0x0A # ''  <html>Service Unavailable</html>''" "Some HTMLInsteadOfJSON"
          "[Request (queryURL ''example.com''), Sleep 2, Request (queryURL ''example.com'')]"]
  by (simp add: NewSubHunter_def exampleEnv_def trimSpace_html stringsHasPrefix_def queryAPI_def queryLoop_end)

section \<open>Properties of the batch orchestrator\<close>

lemma set_mergeSubs: "set (mergeSubs keys subs) = set keys \<union> set subs"
  unfolding mergeSubs_def by (induction subs arbitrary: keys) auto

lemma distinct_mergeSubs: "distinct keys \<Longrightarrow> distinct (mergeSubs keys subs)"
  unfolding mergeSubs_def by (induction subs arbitrary: keys) auto

lemma queryLoop_totalFound:
  "queryLoop e clientDo (s\<lparr>totalFound := t\<rparr>) domain attempt lastErr evs =
   queryLoop e clientDo s domain attempt lastErr evs"
proof (induction "nat (maxRetries s + 1 - attempt)" arbitrary: attempt lastErr evs)
  case 0
  then have "\<not> attempt \<le> maxRetries s" by simp
  then show ?case by (simp add: queryLoop_end)
next
  case (Suc n)
  then have le: "attempt \<le> maxRetries s" by simp
  show ?case
  proof (cases "newRequest e (queryURL domain)")
    case (Some err)
    with le show ?thesis by (simp add: queryLoop_request_error)
  next
    case None
    have ih: "queryLoop e clientDo (s\<lparr>totalFound := t\<rparr>) domain (attempt + 1) l' evs' =
              queryLoop e clientDo s domain (attempt + 1) l' evs'" for l' evs'
      using Suc(1) [of "attempt + 1"] Suc(2) by simp
    from le None show ?thesis
      by (simp add: queryLoop_step ih split: sum.splits)
  qed
qed

lemma processDomain_hunter:
  "processDomain e clientDo s domain showResults = (subs, s', evs) \<Longrightarrow>
     \<exists>t. s' = s\<lparr>totalFound := t\<rparr>"
proof -
  assume a: "processDomain e clientDo s domain showResults = (subs, s', evs)"
  have "s' = s \<or> s' = s\<lparr>totalFound := totalFound s + int (length subs)\<rparr>"
    using a by (auto simp: processDomain_def Let_def split: if_splits prod.splits sum.splits)
  moreover have "s = s\<lparr>totalFound := totalFound s\<rparr>" by simp
  ultimately show ?thesis by metis
qed

lemma processDomain_totalFound:
  "fst (processDomain e clientDo (s\<lparr>totalFound := t\<rparr>) domain showResults) =
   fst (processDomain e clientDo s domain showResults)"
  by (auto simp: processDomain_def Let_def queryAPI_def queryLoop_totalFound
      split: prod.splits sum.splits)
  
lemma sum_list_update:
  "i < length ws \<Longrightarrow>
     sum_list (map f (ws[i := w])) + f (ws ! i) = sum_list (map f ws) + (f w :: nat)"
  by (induction ws arbitrary: i) (auto simp: nth_Cons split: nat.splits)

lemma length_filter_sum: "length (filter P ws) = sum_list (map (\<lambda>w. if P w then 1 else 0) ws)"
  by (induction ws) auto

lemma inFlight_update:
  "i < length (workers b) \<Longrightarrow>
     inFlight (b\<lparr>workers := (workers b)[i := w]\<rparr>) + (if holdsToken (workers b ! i) then 1 else 0) =
     inFlight b + (if holdsToken w then 1 else 0)"
  unfolding inFlight_def length_filter_sum
  using sum_list_update [of i "workers b" "\<lambda>w. if holdsToken w then 1 else 0" w] by simp

lemma progress_update:
  "i < length (workers b) \<Longrightarrow>
     progress (b\<lparr>workers := (workers b)[i := w]\<rparr>) + rank (workers b ! i) = progress b + rank w"
  unfolding progress_def using sum_list_update [of i "workers b" rank w] by simp



lemma keys_update_same:
  "i < length ws \<Longrightarrow> length ws = n \<Longrightarrow> merged w = merged (ws ! i) \<Longrightarrow>
     (\<Union>j \<in> {j. j < n \<and> merged (ws[i := w] ! j)}. F j) =
     (\<Union>j \<in> {j. j < n \<and> merged (ws ! j)}. F j)"
  by (auto simp: nth_list_update split: if_splits)

lemma keys_update_merged:
  "i < length ws \<Longrightarrow> length ws = n \<Longrightarrow> merged w \<Longrightarrow>
     (\<Union>j \<in> {j. j < n \<and> merged (ws[i := w] ! j)}. F j) =
     (\<Union>j \<in> {j. j < n \<and> merged (ws ! j)}. F j) \<union> F i"
  by (auto simp: nth_list_update split: if_splits)


lemma fetched_update:
  assumes "\<forall>j subs. j < n \<and> ws ! j = Fetched subs \<longrightarrow> subs = P j"
    and "\<forall>subs. w = Fetched subs \<longrightarrow> subs = P i" and "i < length ws"
  shows "\<forall>j subs. j < n \<and> ws[i := w] ! j = Fetched subs \<longrightarrow> subs = P j"
  using assms by (auto simp: nth_list_update split: if_splits)

lemma batchInvI:
  assumes "length (workers b) = length domains"
    and "semaphore b = inFlight b"
    and "int (semaphore b) \<le> max 0 (concurrency s)"
    and "\<exists>t. hunter b = s\<lparr>totalFound := t\<rparr>"
    and "\<forall>i subs. i < length domains \<and> workers b ! i = Fetched subs
          \<longrightarrow> subs = perDomain e world s domains i"
    and "set (allSubdomains b) =
        (\<Union>i \<in> {i. i < length domains \<and> merged (workers b ! i)}.
            set (perDomain e world s domains i))"
    and "distinct (allSubdomains b)"
  shows "batchInv e world s domains b"
  unfolding batchInv_def using assms by blast

lemma batchInv_step:
  assumes inv: "batchInv e world s domains b"
  shows "batchInv e world s domains (workerStep e world domains b i)"
proof (cases "i < length (workers b)")
  case False
  with inv show ?thesis by (simp add: workerStep_def)
next
  case i: True
  from inv have len: "length (workers b) = length domains"
    and sem: "semaphore b = inFlight b"
    and cap: "int (semaphore b) \<le> max 0 (concurrency s)"
    and hunter: "\<exists>t. hunter b = s\<lparr>totalFound := t\<rparr>"
    and fetched: "\<forall>j subs. j < length domains \<and> workers b ! j = Fetched subs \<longrightarrow>
                    subs = perDomain e world s domains j"
    and keys: "set (allSubdomains b) =
        (\<Union>j \<in> {j. j < length domains \<and> merged (workers b ! j)}.
            set (perDomain e world s domains j))"
    and dist: "distinct (allSubdomains b)"
    unfolding batchInv_def by blast+
  note upd = inFlight_update [OF i]
  note same = keys_update_same [OF i len, where F = "\<lambda>j. set (perDomain e world s domains j)"]
  note more = keys_update_merged [OF i len, where F = "\<lambda>j. set (perDomain e world s domains j)"]
  show ?thesis
  proof (cases "workers b ! i")
    case Waiting
    show ?thesis
    proof (cases "int (semaphore b) < concurrency (hunter b)")
      case True
      define b' where "b' = b\<lparr>workers := (workers b)[i := Running], semaphore := Suc (semaphore b)\<rparr>"
      have step: "workerStep e world domains b i = b'"
        using True Waiting i by (simp add: workerStep_def b'_def)
      have fl: "inFlight b' = Suc (inFlight b)"
        using upd [of Running] Waiting by (simp add: holdsToken_def b'_def inFlight_def)
      show ?thesis
        unfolding step
      proof (rule batchInvI)
        show "length (workers b') = length domains" using len by (simp add: b'_def)
        show "semaphore b' = inFlight b'" using fl sem by (simp add: b'_def)
        show "int (semaphore b') \<le> max 0 (concurrency s)"
          using True hunter by (auto simp: b'_def)
        show "\<exists>t. hunter b' = s\<lparr>totalFound := t\<rparr>" using hunter by (simp add: b'_def)
        show "\<forall>j subs. j < length domains \<and> workers b' ! j = Fetched subs \<longrightarrow>
                    subs = perDomain e world s domains j"
          unfolding b'_def using fetched_update [OF fetched _ i, of Running] by simp
        show "set (allSubdomains b') = (\<Union>j \<in> {j. j < length domains \<and> merged (workers b' ! j)}.
            set (perDomain e world s domains j))"
          unfolding b'_def using same [of Running] Waiting keys by (simp add: merged_def)
        show "distinct (allSubdomains b')" using dist by (simp add: b'_def)
      qed
    next
      case False
      with Waiting i inv show ?thesis by (simp add: workerStep_def)
    qed
  next
    case Running
    obtain subs s' evs where pd:
      "processDomain e (world i) (hunter b) (domains ! i) False = (subs, s', evs)"
      by (cases "processDomain e (world i) (hunter b) (domains ! i) False") auto
    from hunter obtain t where t: "hunter b = s\<lparr>totalFound := t\<rparr>" by blast
    from processDomain_hunter [OF pd] t have s': "\<exists>t'. s' = s\<lparr>totalFound := t'\<rparr>"
      by auto
    have subs: "subs = perDomain e world s domains i"
      using pd processDomain_totalFound [where e = e and clientDo = "world i" and s = s and t = t
          and domain = "domains ! i" and showResults = False]
      by (simp add: perDomain_def t)
    define b' where "b' = b\<lparr>workers := (workers b)[i := Fetched subs], hunter := s'\<rparr>"
    have step: "workerStep e world domains b i = b'"
      using Running i pd by (simp add: workerStep_def b'_def)
    have fl: "inFlight b' = inFlight b"
      using upd [of "Fetched subs"] Running by (simp add: holdsToken_def b'_def inFlight_def)
    show ?thesis
      unfolding step
    proof (rule batchInvI)
      show "length (workers b') = length domains" using len by (simp add: b'_def)
      show "semaphore b' = inFlight b'" using fl sem by (simp add: b'_def)
      show "int (semaphore b') \<le> max 0 (concurrency s)" using cap by (simp add: b'_def)
      show "\<exists>t. hunter b' = s\<lparr>totalFound := t\<rparr>" using s' by (simp add: b'_def)
      show "\<forall>j subs. j < length domains \<and> workers b' ! j = Fetched subs \<longrightarrow>
                  subs = perDomain e world s domains j"
        unfolding b'_def using fetched_update [OF fetched _ i, of "Fetched subs"] subs by simp
      show "set (allSubdomains b') = (\<Union>j \<in> {j. j < length domains \<and> merged (workers b' ! j)}.
          set (perDomain e world s domains j))"
        unfolding b'_def using same [of "Fetched subs"] Running keys by (simp add: merged_def)
      show "distinct (allSubdomains b')" using dist by (simp add: b'_def)
    qed
  next
    case (Fetched subs)
    have subs: "subs = perDomain e world s domains i"
      using fetched Fetched i len by simp
    define b' where "b' = b\<lparr>workers := (workers b)[i := Merged],
               allSubdomains := mergeSubs (allSubdomains b) subs\<rparr>"
    have step: "workerStep e world domains b i = b'"
      using Fetched i by (simp add: workerStep_def b'_def)
    have fl: "inFlight b' = inFlight b"
      using upd [of Merged] Fetched by (simp add: holdsToken_def b'_def inFlight_def)
    show ?thesis
      unfolding step
    proof (rule batchInvI)
      show "length (workers b') = length domains" using len by (simp add: b'_def)
      show "semaphore b' = inFlight b'" using fl sem by (simp add: b'_def)
      show "int (semaphore b') \<le> max 0 (concurrency s)" using cap by (simp add: b'_def)
      show "\<exists>t. hunter b' = s\<lparr>totalFound := t\<rparr>" using hunter by (simp add: b'_def)
      show "\<forall>j subs. j < length domains \<and> workers b' ! j = Fetched subs \<longrightarrow>
                  subs = perDomain e world s domains j"
        unfolding b'_def using fetched_update [OF fetched _ i, of Merged] by simp
      show "set (allSubdomains b') = (\<Union>j \<in> {j. j < length domains \<and> merged (workers b' ! j)}.
          set (perDomain e world s domains j))"
        unfolding b'_def using more [of Merged] keys subs by (simp add: merged_def set_mergeSubs)
      show "distinct (allSubdomains b')" using dist by (simp add: b'_def distinct_mergeSubs)
    qed
  next
    case Merged
    define b' where "b' = b\<lparr>workers := (workers b)[i := Finished], semaphore := semaphore b - 1\<rparr>"
    have step: "workerStep e world domains b i = b'"
      using Merged i by (simp add: workerStep_def b'_def)
    have fl: "Suc (inFlight b') = inFlight b"
      using upd [of Finished] Merged by (simp add: holdsToken_def b'_def inFlight_def)
    show ?thesis
      unfolding step
    proof (rule batchInvI)
      show "length (workers b') = length domains" using len by (simp add: b'_def)
      show "semaphore b' = inFlight b'" using fl sem by (simp add: b'_def)
      show "int (semaphore b') \<le> max 0 (concurrency s)" using cap by (simp add: b'_def)
      show "\<exists>t. hunter b' = s\<lparr>totalFound := t\<rparr>" using hunter by (simp add: b'_def)
      show "\<forall>j subs. j < length domains \<and> workers b' ! j = Fetched subs \<longrightarrow>
                  subs = perDomain e world s domains j"
        unfolding b'_def using fetched_update [OF fetched _ i, of Finished] by simp
      show "set (allSubdomains b') = (\<Union>j \<in> {j. j < length domains \<and> merged (workers b' ! j)}.
          set (perDomain e world s domains j))"
        unfolding b'_def using same [of Finished] Merged keys by (simp add: merged_def)
      show "distinct (allSubdomains b')" using dist by (simp add: b'_def)
    qed
  next
    case Finished
    with i inv show ?thesis by (simp add: workerStep_def)
  qed
qed

lemma batchInv_start: "batchInv e world s domains (startBatch s domains)"
  by (rule batchInvI)
     (auto simp: startBatch_def inFlight_def holdsToken_def merged_def
      intro: exI [of _ "totalFound s"])

lemma batchInv_run:
  "batchInv e world s domains b \<Longrightarrow> batchInv e world s domains (runSchedule e world domains sched b)"
  unfolding runSchedule_def by (induction sched arbitrary: b) (simp_all add: batchInv_step)

lemma runSchedule_append:
  "runSchedule e world domains (sched @ rest) b =
     runSchedule e world domains rest (runSchedule e world domains sched b)"
  by (simp add: runSchedule_def)

lemma runSchedule_Cons:
  "runSchedule e world domains (i # rest) b =
     runSchedule e world domains rest (workerStep e world domains b i)"
  by (simp add: runSchedule_def)

lemma rank_le: "rank w \<le> 4"
  by (cases w) auto

lemma progress_le: "progress b \<le> 4 * length (workers b)"
  unfolding progress_def
proof (induction "workers b" arbitrary: b)
  case Nil
  then show ?case by simp
next
  case (Cons w ws)
  from Cons(1) [of "b\<lparr>workers := ws\<rparr>"] Cons(2) [symmetric] rank_le [of w]
  show ?case by simp
qed

lemma allFinished_iff:
  "allFinished b = (\<forall>i < length (workers b). workers b ! i = Finished)"
  by (simp add: allFinished_def list_all_length)

lemma no_holder_inFlight:
  "(\<forall>i < length (workers b). \<not> holdsToken (workers b ! i)) \<Longrightarrow> inFlight b = 0"
  by (auto simp: inFlight_def filter_empty_conv in_set_conv_nth)

lemma step_progress:
  assumes inv: "batchInv e world s domains b" and cap: "0 < concurrency s"
    and nf: "\<not> allFinished b"
  shows "\<exists>i. progress (workerStep e world domains b i) = Suc (progress b)"
proof -
  from inv obtain t where hunter: "hunter b = s\<lparr>totalFound := t\<rparr>"
    and sem: "semaphore b = inFlight b"
    unfolding batchInv_def by blast
  have step: "progress (workerStep e world domains b i) = Suc (progress b)"
    if i: "i < length (workers b)" and w: "holdsToken (workers b ! i)" for i
  proof (cases "workers b ! i")
    case Running
    obtain subs s' evs where pd:
      "processDomain e (world i) (hunter b) (domains ! i) False = (subs, s', evs)"
      by (cases "processDomain e (world i) (hunter b) (domains ! i) False") auto
    show ?thesis
      using progress_update [OF i, of "Fetched subs"] Running i pd
      by (simp add: workerStep_def progress_def)
  next
    case (Fetched subs)
    show ?thesis
      using progress_update [OF i, of Merged] Fetched i
      by (simp add: workerStep_def progress_def)
  next
    case Merged
    show ?thesis
      using progress_update [OF i, of Finished] Merged i
      by (simp add: workerStep_def progress_def)
  qed (use w in \<open>simp_all add: holdsToken_def\<close>)
  show ?thesis
  proof (cases "\<exists>i < length (workers b). holdsToken (workers b ! i)")
    case True
    with step show ?thesis by blast
  next
    case False
    then have "inFlight b = 0" by (simp add: no_holder_inFlight)
    with sem have sem0: "semaphore b = 0" by simp
    from nf obtain i where i: "i < length (workers b)" and w: "workers b ! i \<noteq> Finished"
      by (auto simp: allFinished_iff)
    from False i have "\<not> holdsToken (workers b ! i)" by blast
    with w have wait: "workers b ! i = Waiting"
      by (cases "workers b ! i") (auto simp: holdsToken_def)
    have "progress (workerStep e world domains b i) = Suc (progress b)"
      using progress_update [OF i, of Running] wait i sem0 cap hunter
      by (simp add: workerStep_def progress_def)
    then show ?thesis ..
  qed
qed

lemma run_to_completion:
  assumes "batchInv e world s domains b" and "0 < concurrency s"
  shows "\<exists>rest. allFinished (runSchedule e world domains rest b)"
  using assms(1)
proof (induction "4 * length domains - progress b" arbitrary: b rule: less_induct)
  case less
  show ?case
  proof (cases "allFinished b")
    case True
    then have "allFinished (runSchedule e world domains [] b)" by (simp add: runSchedule_def)
    then show ?thesis ..
  next
    case False
    from step_progress [OF less.prems assms(2) False] obtain i
      where i: "progress (workerStep e world domains b i) = Suc (progress b)" ..
    let ?b = "workerStep e world domains b i"
    have inv': "batchInv e world s domains ?b" by (rule batchInv_step [OF less.prems])
    then have "length (workers ?b) = length domains" by (simp add: batchInv_def)
    with progress_le [of ?b] i have "4 * length domains - progress ?b < 4 * length domains - progress b"
      by simp
    from less.hyps [OF this inv'] obtain rest
      where "allFinished (runSchedule e world domains rest ?b)" ..
    then have "allFinished (runSchedule e world domains (i # rest) b)"
      by (simp add: runSchedule_Cons)
    then show ?thesis ..
  qed
qed

lemma finished_keys:
  assumes "batchInv e world s domains b" and "allFinished b"
  shows "set (allSubdomains b) = (\<Union>i<length domains. set (perDomain e world s domains i))"
    and "distinct (allSubdomains b)" and "\<exists>t. hunter b = s\<lparr>totalFound := t\<rparr>"
proof -
  from assms have "{i. i < length domains \<and> merged (workers b ! i)} = {..<length domains}"
    by (auto simp: batchInv_def allFinished_iff merged_def)
  with assms(1) show "set (allSubdomains b) = (\<Union>i<length domains. set (perDomain e world s domains i))"
    by (simp add: batchInv_def)
  from assms(1) show "distinct (allSubdomains b)" "\<exists>t. hunter b = s\<lparr>totalFound := t\<rparr>"
    unfolding batchInv_def by blast+
qed

lemma runSequential_keys:
  assumes "runSequential e world i ds (keys, s\<lparr>totalFound := t\<rparr>) = (keys', s')"
  shows "set keys' = set keys \<union> (\<Union>j<length ds. set (fst (processDomain e (world (i + j)) s (ds ! j) False)))
         \<and> (distinct keys \<longrightarrow> distinct keys') \<and> (\<exists>t'. s' = s\<lparr>totalFound := t'\<rparr>)"
  using assms
proof (induction ds arbitrary: i keys t)
  case Nil
  then show ?case by auto
next
  case (Cons d ds)
  obtain subs s1 evs where pd:
    "processDomain e (world i) (s\<lparr>totalFound := t\<rparr>) d False = (subs, s1, evs)"
    by (cases "processDomain e (world i) (s\<lparr>totalFound := t\<rparr>) d False") auto
  from processDomain_hunter [OF pd] obtain t1 where s1: "s1 = s\<lparr>totalFound := t1\<rparr>" by auto
  have subs: "subs = fst (processDomain e (world i) s d False)"
    using pd processDomain_totalFound [where e = e and clientDo = "world i" and s = s and t = t
          and domain = d and showResults = False] by simp
  from Cons.prems pd s1
  have "runSequential e world (Suc i) ds (mergeSubs keys subs, s\<lparr>totalFound := t1\<rparr>) = (keys', s')"
    by simp
  from Cons.IH [OF this]
  have ih: "set keys' = set (mergeSubs keys subs) \<union>
              (\<Union>j<length ds. set (fst (processDomain e (world (Suc i + j)) s (ds ! j) False)))"
    and d: "distinct (mergeSubs keys subs) \<longrightarrow> distinct keys'"
    and h: "\<exists>t'. s' = s\<lparr>totalFound := t'\<rparr>" by blast+
  have "(\<Union>j<Suc (length ds). set (fst (processDomain e (world (i + j)) s ((d # ds) ! j) False))) =
        set subs \<union> (\<Union>j<length ds. set (fst (processDomain e (world (Suc i + j)) s (ds ! j) False)))"
    unfolding subs
    by (auto simp: lessThan_Suc_eq_insert_0 image_image)
  with ih d h show ?case
    by (auto simp: set_mergeSubs distinct_mergeSubs)
qed

lemma sort_eq_of_set:
  fixes xs ys :: "string list"
  assumes "distinct xs" and "distinct ys" and "set xs = set ys"
  shows "sort xs = sort ys"
  by (rule sorted_distinct_set_unique) (use assms in simp_all)

lemma finish_eq:
  "finish (keys, s\<lparr>totalFound := t\<rparr>) = (sort keys, s\<lparr>totalFound := int (length keys)\<rparr>)"
  by (simp add: finish_def)

lemma sequential_result:
  assumes "runSequential e world 0 domains ([], s) = (keys, s1)"
  shows "set keys = (\<Union>i<length domains. set (perDomain e world s domains i))"
    and "distinct keys" and "\<exists>t. s1 = s\<lparr>totalFound := t\<rparr>"
proof -
  from assms have "runSequential e world 0 domains ([], s\<lparr>totalFound := totalFound s\<rparr>) = (keys, s1)"
    by simp
  from runSequential_keys [OF this]
  show "set keys = (\<Union>i<length domains. set (perDomain e world s domains i))"
    and "distinct keys" and "\<exists>t. s1 = s\<lparr>totalFound := t\<rparr>"
    by (simp_all add: perDomain_def)
qed

lemma returned_cases:
  assumes "processDomainsFromFile e world s (Inr lines) concurrent sched = Returned r"
  obtains keys t where "r = finish (keys, s\<lparr>totalFound := t\<rparr>)" and "distinct keys"
    and "set keys = (\<Union>i<length (loadDomains lines). set (perDomain e world s (loadDomains lines) i))"
proof (cases "concurrent \<and> length (loadDomains lines) > 1")
  case True
  let ?b = "runSchedule e world (loadDomains lines) sched (startBatch s (loadDomains lines))"
  from assms True have fin: "allFinished ?b" and r: "r = finish (allSubdomains ?b, hunter ?b)"
    by (auto simp: processDomainsFromFile_def Let_def split: if_splits)
  have inv: "batchInv e world s (loadDomains lines) ?b"
    by (rule batchInv_run [OF batchInv_start])
  from finished_keys [OF inv fin] r that show ?thesis by metis
next
  case False
  obtain keys s1 where run: "runSequential e world 0 (loadDomains lines) ([], s) = (keys, s1)"
    by (cases "runSequential e world 0 (loadDomains lines) ([], s)") auto
  from assms False run have r: "r = finish (keys, s1)"
    by (auto simp: processDomainsFromFile_def Let_def split: if_splits)
  from sequential_result [OF run] r that show ?thesis by metis
qed

lemma concurrent_mode_returns:
  assumes "0 < concurrency s"
  shows "\<exists>rest r. processDomainsFromFile e world s file True (sched @ rest) = Returned r"
proof (cases "file")
  case (Inl err)
  then show ?thesis by (simp add: processDomainsFromFile_def)
next
  case (Inr lines)
  let ?ds = "loadDomains lines"
  show ?thesis
  proof (cases "length ?ds > 1")
    case False
    with Inr show ?thesis by (simp add: processDomainsFromFile_def Let_def)
  next
    case True
    have "batchInv e world s ?ds (runSchedule e world ?ds sched (startBatch s ?ds))"
      by (rule batchInv_run [OF batchInv_start])
    from run_to_completion [OF this assms] obtain rest where
      "allFinished (runSchedule e world ?ds (sched @ rest) (startBatch s ?ds))"
      unfolding runSchedule_append ..
    with True assms Inr show ?thesis
      by (auto simp: processDomainsFromFile_def Let_def)
  qed
qed

lemma sequential_mode_returns:
  "\<exists>r. processDomainsFromFile e world s file False sched = Returned r"
  by (cases "file") (simp_all add: processDomainsFromFile_def Let_def)

text \<open>
  C5. When a batch run over the domains of a file returns, in either mode and whatever
  the order of the workers' steps, the returned sequence is sorted and free of
  duplicates, its elements are those of the union of the results that
  \<^verbatim>\<open>processDomain\<close> gave for the domains of the list, and \<^verbatim>\<open>totalFound\<close> is then the
  size of that set, not the sum of the counts of the domains. And the run does return:
  always in sequential mode, and in concurrent mode from every state it has reached
  when the worker limit is at least 1.
\<close>

theorem processDomainsFromFile_result:
  "(\<forall>result s'.
      processDomainsFromFile e world s (Inr lines) concurrent sched = Returned (result, s') \<longrightarrow>
        sorted result \<and> distinct result \<and>
        set result =
          (\<Union>i<length (loadDomains lines). set (perDomain e world s (loadDomains lines) i)) \<and>
        totalFound s' = int (length result) \<and>
        length result =
          card (\<Union>i<length (loadDomains lines). set (perDomain e world s (loadDomains lines) i))) \<and>
   (\<exists>r. processDomainsFromFile e world s (Inr lines) False sched = Returned r) \<and>
   (0 < concurrency s \<longrightarrow>
      (\<exists>rest r. processDomainsFromFile e world s (Inr lines) True (sched @ rest) = Returned r))"
proof (intro conjI allI impI)
  fix result s'
  assume "processDomainsFromFile e world s (Inr lines) concurrent sched = Returned (result, s')"
  then obtain keys t where r: "(result, s') = finish (keys, s\<lparr>totalFound := t\<rparr>)"
    and d: "distinct keys"
    and k: "set keys = (\<Union>i<length (loadDomains lines). set (perDomain e world s (loadDomains lines) i))"
    by (rule returned_cases)
  from r have res: "result = sort keys" and s': "s' = s\<lparr>totalFound := int (length keys)\<rparr>"
    by (simp_all add: finish_eq)
  have len: "length result = card (set result)"
    using d by (simp add: res distinct_card [symmetric])
  show "sorted result" "distinct result" using d by (simp_all add: res)
  show "set result =
          (\<Union>i<length (loadDomains lines). set (perDomain e world s (loadDomains lines) i))"
    using k by (simp add: res)
  show "totalFound s' = int (length result)" by (simp add: res s')
  show "length result =
          card (\<Union>i<length (loadDomains lines). set (perDomain e world s (loadDomains lines) i))"
    using len k by (simp add: res)
next
  show "\<exists>r. processDomainsFromFile e world s (Inr lines) False sched = Returned r"
    by (rule sequential_mode_returns)
next
  assume "0 < concurrency s"
  then show "\<exists>rest r. processDomainsFromFile e world s (Inr lines) True (sched @ rest) = Returned r"
    by (rule concurrent_mode_returns)
qed

lemma example_run:
  "processDomainsFromFile exampleEnv exampleWorld (NewSubHunter 60 2 False)
     (Inr [''a.com'', '''', ''  x.a.com '']) True [0, 1, 0, 1, 0, 1, 0, 1] =
   Returned ([''x.a.com'', ''y.a.com''],
             \<lparr>concurrency = 2, silent = False, totalFound = 2, maxRetries = 3\<rparr>)"
  by code_simp

lemma example_perDomain:
  "perDomain exampleEnv exampleWorld (NewSubHunter 60 2 False) [''a.com'', ''x.a.com''] 0 = [''x.a.com'', ''y.a.com'']"
  "perDomain exampleEnv exampleWorld (NewSubHunter 60 2 False) [''a.com'', ''x.a.com''] 1 = [''x.a.com'']"
  by code_simp+

text \<open>
  A concurrent run of two domains whose results overlap: three subdomains counted, two
  returned.
\<close>

theorem processDomainsFromFile_result_witness:
  "processDomainsFromFile exampleEnv exampleWorld (NewSubHunter 60 2 False)
     (Inr [''a.com'', '''', ''  x.a.com '']) True [0, 1, 0, 1, 0, 1, 0, 1] =
   Returned ([''x.a.com'', ''y.a.com''],
             \<lparr>concurrency = 2, silent = False, totalFound = 2, maxRetries = 3\<rparr>) \<and>
   sorted [''x.a.com'', ''y.a.com''] \<and> distinct [''x.a.com'', ''y.a.com''] \<and>
   length (perDomain exampleEnv exampleWorld (NewSubHunter 60 2 False) [''a.com'', ''x.a.com''] 0) +
   length (perDomain exampleEnv exampleWorld (NewSubHunter 60 2 False) [''a.com'', ''x.a.com''] 1) = 3"
proof -
  from processDomainsFromFile_result [THEN conjunct1, rule_format, OF example_run]
  have "sorted [''x.a.com'', ''y.a.com''] \<and> distinct [''x.a.com'', ''y.a.com'']"
    by blast
  moreover have
    "length (perDomain exampleEnv exampleWorld (NewSubHunter 60 2 False) [''a.com'', ''x.a.com''] 0) +
     length (perDomain exampleEnv exampleWorld (NewSubHunter 60 2 False) [''a.com'', ''x.a.com''] 1) = 3"
    unfolding example_perDomain by simp
  ultimately show ?thesis using example_run by blast
qed

text \<open>
  C6, as the code has it. With a worker limit of at least 1, for every file and the
  same answers of the network, the concurrent mode returns under every order of the
  workers' steps (every run so far can be continued to the return), and what it returns,
  the merged sequence and the \<^verbatim>\<open>SubHunter\<close> with its \<^verbatim>\<open>totalFound\<close>, is what the
  sequential mode returns.
\<close>

theorem concurrent_equals_sequential:
  assumes "0 < concurrency s"
  shows "(\<forall>sched. \<exists>rest r.
            processDomainsFromFile e world s file True (sched @ rest) = Returned r) \<and>
         (\<forall>sched r. processDomainsFromFile e world s file True sched = Returned r \<longrightarrow>
            processDomainsFromFile e world s file False sched = Returned r)"
proof (cases "file")
  case (Inl err)
  then show ?thesis by (simp add: processDomainsFromFile_def)
next
  case (Inr lines)
  let ?ds = "loadDomains lines"
  show ?thesis
  proof (cases "length ?ds > 1")
    case False
    with Inr show ?thesis by (simp add: processDomainsFromFile_def Let_def)
  next
    case True
    have returns: "\<exists>rest r. processDomainsFromFile e world s file True (sched @ rest) = Returned r"
      for sched
      by (rule concurrent_mode_returns [OF assms])
    have same: "processDomainsFromFile e world s file False sched = Returned r"
      if conc: "processDomainsFromFile e world s file True sched = Returned r" for sched r
    proof -
      from conc Inr obtain keys t where r: "r = finish (keys, s\<lparr>totalFound := t\<rparr>)"
        and d: "distinct keys"
        and k: "set keys = (\<Union>i<length ?ds. set (perDomain e world s ?ds i))"
        by (auto elim: returned_cases)
      have seq: "processDomainsFromFile e world s file False sched =
                   Returned (finish (runSequential e world 0 ?ds ([], s)))"
        using Inr by (simp add: processDomainsFromFile_def Let_def)
      obtain keys' s1 where run: "runSequential e world 0 ?ds ([], s) = (keys', s1)"
        by (cases "runSequential e world 0 ?ds ([], s)") auto
      from sequential_result [OF run] obtain t' where
        k': "set keys' = (\<Union>i<length ?ds. set (perDomain e world s ?ds i))"
        and d': "distinct keys'" and s1: "s1 = s\<lparr>totalFound := t'\<rparr>" by blast
      have srt: "sort keys = sort keys'" using d d' k k' by (intro sort_eq_of_set) simp_all
      then have "length keys = length keys'"
        by (metis length_sort)
      with srt have "finish (runSequential e world 0 ?ds ([], s)) = r"
        by (simp add: run s1 r finish_eq)
      with seq show ?thesis by simp
    qed
    from returns same show ?thesis by blast
  qed
qed

lemma example_sequential_run:
  "processDomainsFromFile exampleEnv exampleWorld (NewSubHunter 60 2 False)
     (Inr [''a.com'', '''', ''  x.a.com '']) False [] =
   Returned ([''x.a.com'', ''y.a.com''],
             \<lparr>concurrency = 2, silent = False, totalFound = 2, maxRetries = 3\<rparr>)"
  by code_simp

theorem concurrent_equals_sequential_witness:
  "0 < concurrency (NewSubHunter 60 2 False) \<and>
   processDomainsFromFile exampleEnv exampleWorld (NewSubHunter 60 2 False)
     (Inr [''a.com'', '''', ''  x.a.com '']) True [1, 1, 0, 0, 1, 0, 1, 0] =
   Returned ([''x.a.com'', ''y.a.com''],
             \<lparr>concurrency = 2, silent = False, totalFound = 2, maxRetries = 3\<rparr>) \<and>
   processDomainsFromFile exampleEnv exampleWorld (NewSubHunter 60 2 False)
     (Inr [''a.com'', '''', ''  x.a.com '']) False [1, 1, 0, 0, 1, 0, 1, 0] =
   Returned ([''x.a.com'', ''y.a.com''],
             \<lparr>concurrency = 2, silent = False, totalFound = 2, maxRetries = 3\<rparr>)"
proof -
  have c: "0 < concurrency (NewSubHunter 60 2 False)" by (simp add: NewSubHunter_def)
  have run: "processDomainsFromFile exampleEnv exampleWorld (NewSubHunter 60 2 False)
     (Inr [''a.com'', '''', ''  x.a.com '']) True [1, 1, 0, 0, 1, 0, 1, 0] =
   Returned ([''x.a.com'', ''y.a.com''],
             \<lparr>concurrency = 2, silent = False, totalFound = 2, maxRetries = 3\<rparr>)"
    by code_simp
  from concurrent_equals_sequential [OF c, of exampleEnv exampleWorld
      "Inr [''a.com'', '''', ''  x.a.com '']"] run
  have "processDomainsFromFile exampleEnv exampleWorld (NewSubHunter 60 2 False)
     (Inr [''a.com'', '''', ''  x.a.com '']) False [1, 1, 0, 0, 1, 0, 1, 0] =
   Returned ([''x.a.com'', ''y.a.com''],
             \<lparr>concurrency = 2, silent = False, totalFound = 2, maxRetries = 3\<rparr>)"
    by blast
  with c run show ?thesis by blast
qed

lemma blocked_forever:
  assumes "concurrency s \<le> 0"
  shows "runSchedule e world domains sched (startBatch s domains) = startBatch s domains"
proof (induction sched rule: rev_induct)
  case Nil
  show ?case by (simp add: runSchedule_def)
next
  case (snoc i sched)
  have "workerStep e world domains (startBatch s domains) i = startBatch s domains"
    using assms by (simp add: workerStep_def startBatch_def)
  with snoc show ?case by (simp add: runSchedule_append runSchedule_Cons runSchedule_def)
qed

text \<open>
  C6 as it is stated fails for the worker limit 0: the channel has no buffer, every
  worker blocks on its send, and the concurrent mode never returns on two domains,
  whereas the sequential mode returns their two subdomains.
\<close>

theorem concurrent_equals_sequential_counterexample:
  "processDomainsFromFile exampleEnv exampleWorld (NewSubHunter 60 0 False)
     (Inr [''a.com'', ''x.a.com'']) False [] =
   Returned ([''x.a.com'', ''y.a.com''],
             \<lparr>concurrency = 0, silent = False, totalFound = 2, maxRetries = 3\<rparr>) \<and>
   (\<forall>sched. processDomainsFromFile exampleEnv exampleWorld (NewSubHunter 60 0 False)
     (Inr [''a.com'', ''x.a.com'']) True sched = StillWaiting)"
proof -
  have seq: "processDomainsFromFile exampleEnv exampleWorld (NewSubHunter 60 0 False)
     (Inr [''a.com'', ''x.a.com'']) False [] =
   Returned ([''x.a.com'', ''y.a.com''],
             \<lparr>concurrency = 0, silent = False, totalFound = 2, maxRetries = 3\<rparr>)"
    by code_simp
  have ds: "loadDomains [''a.com'', ''x.a.com''] = [''a.com'', ''x.a.com'']"
    by code_simp
  have "processDomainsFromFile exampleEnv exampleWorld (NewSubHunter 60 0 False)
     (Inr [''a.com'', ''x.a.com'']) True sched = StillWaiting" for sched
    using blocked_forever [of "NewSubHunter 60 0 False" exampleEnv exampleWorld
        "[''a.com'', ''x.a.com'']" sched]
    by (simp add: processDomainsFromFile_def ds NewSubHunter_def startBatch_def allFinished_def)
  with seq show ?thesis by blast
qed

text \<open>
  C9. At every moment of a concurrent run, the workers between their send on the
  channel and their receive from it are at most \<^verbatim>\<open>s.concurrency\<close>, and a fetch runs only
  in such a worker; with a limit of 2 and 5 domains at most 2 fetches are in flight.
\<close>

theorem semaphore_bounds_inFlight:
  assumes "0 \<le> concurrency s"
  shows "int (inFlight (runSchedule e world domains sched (startBatch s domains))) \<le> concurrency s \<and>
         length (filter (\<lambda>w. w = Running)
                        (workers (runSchedule e world domains sched (startBatch s domains))))
           \<le> inFlight (runSchedule e world domains sched (startBatch s domains))"
proof -
  let ?b = "runSchedule e world domains sched (startBatch s domains)"
  have "batchInv e world s domains ?b" by (rule batchInv_run [OF batchInv_start])
  then have "int (inFlight ?b) \<le> max 0 (concurrency s)" by (simp add: batchInv_def)
  with assms have "int (inFlight ?b) \<le> concurrency s" by simp
  moreover have "length (filter (\<lambda>w. w = Running) ws) \<le> length (filter holdsToken ws)" for ws
    by (induction ws) (auto simp: holdsToken_def)
  ultimately show ?thesis by (simp add: inFlight_def)
qed

lemma example_five:
  "inFlight (runSchedule exampleEnv exampleWorld
      [''a.com'', ''b.com'', ''c.com'', ''d.com'', ''e.com''] [0, 1, 2, 3, 4, 0, 1, 2, 3, 4]
      (startBatch (NewSubHunter 60 2 False)
         [''a.com'', ''b.com'', ''c.com'', ''d.com'', ''e.com''])) = 2"
  by code_simp

theorem semaphore_bounds_inFlight_witness:
  "0 \<le> concurrency (NewSubHunter 60 2 False) \<and>
   inFlight (runSchedule exampleEnv exampleWorld
      [''a.com'', ''b.com'', ''c.com'', ''d.com'', ''e.com''] [0, 1, 2, 3, 4, 0, 1, 2, 3, 4]
      (startBatch (NewSubHunter 60 2 False)
         [''a.com'', ''b.com'', ''c.com'', ''d.com'', ''e.com''])) = 2 \<and>
   int (inFlight (runSchedule exampleEnv exampleWorld
      [''a.com'', ''b.com'', ''c.com'', ''d.com'', ''e.com''] [0, 1, 2, 3, 4, 0, 1, 2, 3, 4]
      (startBatch (NewSubHunter 60 2 False)
         [''a.com'', ''b.com'', ''c.com'', ''d.com'', ''e.com'']))) \<le> 2"
  using semaphore_bounds_inFlight [of "NewSubHunter 60 2 False" exampleEnv exampleWorld
      "[''a.com'', ''b.com'', ''c.com'', ''d.com'', ''e.com'']" "[0, 1, 2, 3, 4, 0, 1, 2, 3, 4]"]
    example_five
  by (simp add: NewSubHunter_def)

section \<open>Properties of the extractor\<close>

lemma example_extraction:
  "extractSubdomains ''example.com''
     [''foo.example.com'' @ [CHR 0x0A] @ ''BAR.EXAMPLE.COM'', ''not-related.org'',
      ''*.baz.example.com''] =
     [''bar.example.com'', ''baz.example.com'', ''foo.example.com'']"
  by code_simp

lemma example_case_variants:
  "extractSubdomains ''example.com''
     [''foo.example.com'', ''FOO.Example.COM'',
      ''Foo.example.com'' @ [CHR 0x0A] @ ''foo.example.com''] =
     [''foo.example.com'']"
  by code_simp

text \<open>
  C4. For the target \<^verbatim>\<open>example.com\<close>, the raw entries
  \<^verbatim>\<open>"foo.example.com\nBAR.EXAMPLE.COM"\<close>, \<^verbatim>\<open>"not-related.org"\<close> and
  \<^verbatim>\<open>"*.baz.example.com"\<close> give exactly \<^verbatim>\<open>bar.example.com\<close>,
  \<^verbatim>\<open>baz.example.com\<close>, \<^verbatim>\<open>foo.example.com\<close>: sorted, in lower case, without the
  wildcard, each once. Entries that differ in case only give one subdomain.
\<close>

theorem extractSubdomains_example:
  "extractSubdomains ''example.com''
     [''foo.example.com'' @ [CHR 0x0A] @ ''BAR.EXAMPLE.COM'', ''not-related.org'',
      ''*.baz.example.com''] =
     [''bar.example.com'', ''baz.example.com'', ''foo.example.com''] \<and>
   extractSubdomains ''example.com''
     [''foo.example.com'', ''FOO.Example.COM'',
      ''Foo.example.com'' @ [CHR 0x0A] @ ''foo.example.com''] =
     [''foo.example.com'']"
  using example_extraction example_case_variants by (rule conjI)

declare rmatch.simps [simp del]

lemma lastWord_append [simp]: "lastWord (lastWord p w) w' = lastWord p (w @ w')"
  by (simp add: lastWord_def)

lemma lastWord_Nil [simp]: "lastWord p [] = p"
  by (simp add: lastWord_def)

lemma lastWord_single [simp]: "lastWord p [x] = isWordChar x"
  by (simp add: lastWord_def)

lemma rmatch_Repeat_0: "rmatch (Repeat 0 r) st = [st]"
  by (subst rmatch.simps) simp

lemma rmatch_Repeat_pos:
  "n \<noteq> 0 \<Longrightarrow>
     rmatch (Repeat n r) st = concat (map (rmatch (Repeat (n - 1) r)) (rmatch r st)) @ [st]"
  by (subst rmatch.simps) simp

lemmas rmatch_Star = rmatch.simps(8)

lemmas rmatch_base = rmatch.simps(1-6)

lemma reaches_refl: "reaches st st"
  by (auto simp: reaches_def intro: exI [of _ "[]"])

lemma reaches_trans: "reaches st x \<Longrightarrow> reaches x y \<Longrightarrow> reaches st y"
  unfolding reaches_def
proof -
  assume "\<exists>w. snd st = w @ snd x \<and> fst x = lastWord (fst st) w"
    and "\<exists>w. snd x = w @ snd y \<and> fst y = lastWord (fst x) w"
  then obtain w1 w2 where "snd st = w1 @ snd x" "fst x = lastWord (fst st) w1"
    "snd x = w2 @ snd y" "fst y = lastWord (fst x) w2" by blast
  then have "snd st = (w1 @ w2) @ snd y \<and> fst y = lastWord (fst st) (w1 @ w2)" by simp
  then show "\<exists>w. snd st = w @ snd y \<and> fst y = lastWord (fst st) w" by blast
qed

lemma reaches_step: "reaches (p, x # xs) (isWordChar x, xs)"
  by (auto simp: reaches_def intro: exI [of _ "[x]"])

lemma rmatch_reaches: "\<forall>x \<in> set (rmatch r st). reaches st x"
proof (induction r st rule: rmatch.induct)
  case (1 c p s)
  then show ?case
    by (cases s) (auto simp: rmatch_base reaches_step)
next
  case (2 rs p s)
  then show ?case
    by (cases s) (auto simp: rmatch_base reaches_step)
next
  case (3 p s)
  then show ?case by (auto simp: rmatch_base reaches_refl)
next
  case (4 st)
  then show ?case by (auto simp: rmatch_base reaches_refl)
next
  case (5 r1 r2 st)
  then show ?case by (auto simp: rmatch_base intro: reaches_trans)
next
  case (6 r st)
  then show ?case by (auto simp: rmatch_base reaches_refl)
next
  case (7 n r st)
  then show ?case
    by (cases "n = 0") (auto simp: rmatch_Repeat_0 rmatch_Repeat_pos reaches_refl intro: reaches_trans)
next
  case (8 r p s)
  show ?case
  proof
    fix x assume "x \<in> set (rmatch (Star r) (p, s))"
    then consider "x = (p, s)"
      | y where "y \<in> set (filter (\<lambda>(p', s'). length s' < length s) (rmatch r (p, s)))"
          "x \<in> set (rmatch (Star r) y)"
      by (auto simp: rmatch_Star [of r p s])
    then show "reaches (p, s) x"
    proof cases
      case 1
      then show ?thesis by (simp add: reaches_refl)
    next
      case 2
      from 2(1) 8(1) have "reaches (p, s) y" by auto
      moreover from 8(2) [OF 2(1)] 2(2) have "reaches y x" by blast
      ultimately show ?thesis by (rule reaches_trans)
    qed
  qed
qed

lemma rmatch_suffix: "(q, s') \<in> set (rmatch r (p, s)) \<Longrightarrow> \<exists>w. s = w @ s' \<and> q = lastWord p w"
  using rmatch_reaches [of r "(p, s)"] by (auto simp: reaches_def)

lemma rmatch_length: "(q, s') \<in> set (rmatch r (p, s)) \<Longrightarrow> length s' \<le> length s"
  by (auto dest: rmatch_suffix)

lemma filter_concat_map_filter:
  assumes "\<And>x y. x \<in> set xs \<Longrightarrow> \<not> K x \<Longrightarrow> y \<in> set (f x) \<Longrightarrow> \<not> K y"
  shows "filter K (concat (map f xs)) = filter K (concat (map f (filter K xs)))"
  using assms
proof (induction xs)
  case Nil
  show ?case by simp
next
  case (Cons x xs)
  have ih: "filter K (concat (map f xs)) = filter K (concat (map f (filter K xs)))"
    using Cons.prems by (intro Cons.IH) auto
  show ?case
  proof (cases "K x")
    case True
    with ih show ?thesis by simp
  next
    case False
    with Cons.prems have "filter K (f x) = []"
      by (auto simp: filter_empty_conv)
    with False ih show ?thesis by simp
  qed
qed

lemma leaves_rmatch:
  "\<not> leaves v x \<Longrightarrow> y \<in> set (rmatch r x) \<Longrightarrow> \<not> leaves v y"
  using rmatch_length [of "fst y" "snd y" r "fst x" "snd x"] by (simp add: leaves_def)

lemma leaves_ext [simp]: "leaves v (extendBy v x)"
  by (simp add: leaves_def extendBy_def)

lemma filter_keeps_ext [simp]: "filter (leaves v) (map (extendBy v) xs) = map (extendBy v) xs"
  by (induction xs) auto

lemma localAtD:
  "localAt r (p, u @ v) \<Longrightarrow>
     filter (leaves v) (rmatch r (p, u @ v)) = map (extendBy v) (rmatch r (p, u))"
  by (simp add: localAt_def)

lemma seq_local:
  assumes l1: "filter (leaves v) R = map (extendBy v) R'"
    and l2: "\<And>y. y \<in> set R' \<Longrightarrow> filter (leaves v) (rmatch r2 (extendBy v y)) = map (extendBy v) (rmatch r2 y)"
  shows "filter (leaves v) (concat (map (rmatch r2) R)) =
         map (extendBy v) (concat (map (rmatch r2) R'))"
proof -
  have "filter (leaves v) (concat (map (rmatch r2) R)) =
        filter (leaves v) (concat (map (rmatch r2) (filter (leaves v) R)))"
    by (rule filter_concat_map_filter) (rule leaves_rmatch)
  also have "\<dots> = filter (leaves v) (concat (map (rmatch r2) (map (extendBy v) R')))"
    by (simp add: l1)
  also have "\<dots> = concat (map (\<lambda>y. filter (leaves v) (rmatch r2 (extendBy v y))) R')"
    by (simp add: filter_concat comp_def)
  also have "\<dots> = concat (map (\<lambda>y. map (extendBy v) (rmatch r2 y)) R')"
    using l2 by (auto intro!: arg_cong [where f = concat] map_cong)
  also have "\<dots> = map (extendBy v) (concat (map (rmatch r2) R'))"
    by (simp add: map_concat comp_def)
  finally show ?thesis .
qed

lemma rmatch_local: "plain r \<Longrightarrow> localAt r st"
proof (induction r st rule: rmatch.induct)
  case (1 c p s)
  show ?case
    unfolding localAt_def
  proof (intro allI impI)
    fix u v assume "snd (p, s) = u @ v"
    then have s: "s = u @ v" by simp
    show "filter (leaves v) (rmatch (Lit c) (p, s)) = map (extendBy v) (rmatch (Lit c) (fst (p, s), u))"
      unfolding s by (cases u; cases v) (auto simp: rmatch_base leaves_def extendBy_def)
  qed
next
  case (2 rs p s)
  show ?case
    unfolding localAt_def
  proof (intro allI impI)
    fix u v assume "snd (p, s) = u @ v"
    then have s: "s = u @ v" by simp
    show "filter (leaves v) (rmatch (Class rs) (p, s)) = map (extendBy v) (rmatch (Class rs) (fst (p, s), u))"
      unfolding s by (cases u; cases v) (auto simp: rmatch_base leaves_def extendBy_def)
  qed
next
  case (3 p s)
  then show ?case by simp
next
  case (4 st)
  show ?case
    by (cases st) (auto simp: localAt_def rmatch_base leaves_def extendBy_def)
next
  case (5 r1 r2 st)
  from 5(3) have p1: "plain r1" and p2: "plain r2" by simp_all
  show ?case
    unfolding localAt_def
  proof (intro allI impI)
    fix u v assume s: "snd st = u @ v"
    obtain p where st: "st = (p, u @ v)" using s by (cases st) auto
    have l1: "filter (leaves v) (rmatch r1 st) = map (extendBy v) (rmatch r1 (p, u))"
      using 5(1) [OF p1] unfolding st by (rule localAtD)
    have l2: "filter (leaves v) (rmatch r2 (extendBy v y)) = map (extendBy v) (rmatch r2 y)"
      if y: "y \<in> set (rmatch r1 (p, u))" for y
    proof -
      have "extendBy v y \<in> set (map (extendBy v) (rmatch r1 (p, u)))" using y by simp
      then have "extendBy v y \<in> set (rmatch r1 st)" unfolding l1 [symmetric] by simp
      from 5(2) [OF this p2] show ?thesis
        by (cases y) (simp add: localAt_def extendBy_def)
    qed
    show "filter (leaves v) (rmatch (Cat r1 r2) st) = map (extendBy v) (rmatch (Cat r1 r2) (fst st, u))"
      using seq_local [OF l1 l2] by (simp add: rmatch_base st)
  qed
next
  case (6 r st)
  from 6(2) have p: "plain r" by simp
  show ?case
    unfolding localAt_def
  proof (intro allI impI)
    fix u v assume s: "snd st = u @ v"
    obtain p where st: "st = (p, u @ v)" using s by (cases st) auto
    have l1: "filter (leaves v) (rmatch r st) = map (extendBy v) (rmatch r (p, u))"
      using 6(1) [OF p] unfolding st by (rule localAtD)
    show "filter (leaves v) (rmatch (Quest r) st) = map (extendBy v) (rmatch (Quest r) (fst st, u))"
      using l1 by (simp add: rmatch_base st leaves_def extendBy_def)
  qed
next
  case (7 n r st)
  from 7(3) have pl: "plain r" by simp
  show ?case
  proof (cases "n = 0")
    case True
    show ?thesis
      unfolding True by (cases st) (auto simp: localAt_def rmatch_Repeat_0 leaves_def extendBy_def)
  next
    case False
    have pl': "plain (Repeat (n - 1) r)" using pl by simp
    show ?thesis
      unfolding localAt_def
    proof (intro allI impI)
      fix u v assume s: "snd st = u @ v"
      obtain p where st: "st = (p, u @ v)" using s by (cases st) auto
      have l1: "filter (leaves v) (rmatch r st) = map (extendBy v) (rmatch r (p, u))"
        using 7(1) [OF False pl] unfolding st by (rule localAtD)
      have l2: "filter (leaves v) (rmatch (Repeat (n - 1) r) (extendBy v y)) =
                map (extendBy v) (rmatch (Repeat (n - 1) r) y)"
        if y: "y \<in> set (rmatch r (p, u))" for y
      proof -
        have "extendBy v y \<in> set (map (extendBy v) (rmatch r (p, u)))" using y by simp
        then have "extendBy v y \<in> set (rmatch r st)" unfolding l1 [symmetric] by simp
        from 7(2) [OF False this pl'] show ?thesis
          by (cases y) (simp add: localAt_def extendBy_def)
      qed
      show "filter (leaves v) (rmatch (Repeat n r) st) =
            map (extendBy v) (rmatch (Repeat n r) (fst st, u))"
        using seq_local [OF l1 l2] False
        by (simp add: rmatch_Repeat_pos st leaves_def extendBy_def)
    qed
  qed
next
  case (8 r p s)
  from 8(3) have pl: "plain r" by simp
  show ?case
    unfolding localAt_def
  proof (intro allI impI)
    fix u v assume "snd (p, s) = u @ v"
    then have s: "s = u @ v" by simp
    let ?short = "\<lambda>n (x :: bool \<times> string). length (snd x) < n"
    have short: "(\<lambda>(p', s'). length s' < n) = ?short n" for n
      by (auto simp: fun_eq_iff)
    have l0: "filter (leaves v) (rmatch r (p, s)) = map (extendBy v) (rmatch r (p, u))"
      using 8(1) [OF pl] unfolding s by (rule localAtD)
    have l1: "filter (leaves v) (filter (?short (length s)) (rmatch r (p, s))) =
              map (extendBy v) (filter (?short (length u)) (rmatch r (p, u)))"
    proof -
      have "filter (leaves v) (filter (?short (length s)) (rmatch r (p, s))) =
            filter (?short (length s)) (filter (leaves v) (rmatch r (p, s)))"
        by (simp add: conj_commute)
      also have "\<dots> = filter (?short (length s)) (map (extendBy v) (rmatch r (p, u)))"
        by (simp only: l0)
      also have "\<dots> = map (extendBy v) (filter (?short (length u)) (rmatch r (p, u)))"
        by (simp add: filter_map comp_def extendBy_def s)
      finally show ?thesis .
    qed
    have l2: "filter (leaves v) (rmatch (Star r) (extendBy v y)) = map (extendBy v) (rmatch (Star r) y)"
      if y: "y \<in> set (filter (?short (length u)) (rmatch r (p, u)))" for y
    proof -
      have "extendBy v y \<in> set (map (extendBy v) (filter (?short (length u)) (rmatch r (p, u))))"
        using y by simp
      then have "extendBy v y \<in> set (filter (?short (length s)) (rmatch r (p, s)))"
        unfolding l1 [symmetric] by simp
      then have "extendBy v y \<in> set (filter (\<lambda>(p', s'). length s' < length s) (rmatch r (p, s)))"
        by (simp add: short)
      from 8(2) [OF this 8(3)] show ?thesis
        by (cases y) (simp add: localAt_def extendBy_def)
    qed
    show "filter (leaves v) (rmatch (Star r) (p, s)) =
          map (extendBy v) (rmatch (Star r) (fst (p, s), u))"
    proof -
      have a: "rmatch (Star r) (p, s) =
                 concat (map (rmatch (Star r)) (filter (?short (length s)) (rmatch r (p, s)))) @ [(p, s)]"
        by (subst rmatch_Star) (simp only: short)
      have b: "rmatch (Star r) (p, u) =
                 concat (map (rmatch (Star r)) (filter (?short (length u)) (rmatch r (p, u)))) @ [(p, u)]"
        by (subst rmatch_Star) (simp only: short)
      have c: "filter (leaves v) [(p, s)] = map (extendBy v) [(p, u)]"
        by (simp add: leaves_def extendBy_def s)
      note d = seq_local [OF l1 l2]
      show ?thesis
        unfolding fst_conv a b filter_append map_append c by (simp only: d)
    qed
  qed
qed

lemma isUpper_code: "isUpper c = (65 \<le> (of_char c :: nat) \<and> (of_char c :: nat) \<le> 90)"
  by (simp add: isUpper_def less_eq_char_def)

lemma isLower_code: "isLower c = (97 \<le> (of_char c :: nat) \<and> (of_char c :: nat) \<le> 122)"
  by (simp add: isLower_def less_eq_char_def)

lemma isDigit_code: "isDigit c = (48 \<le> (of_char c :: nat) \<and> (of_char c :: nat) \<le> 57)"
  by (simp add: isDigit_def less_eq_char_def)

lemma of_char_toLower:
  "(of_char (toLowerChar c) :: nat) = (if isUpper c then of_char c + 32 else of_char c)"
  by (auto simp: toLowerChar_def isUpper_code)

lemma of_char_toUpper:
  "(of_char (toUpperChar c) :: nat) = (if isLower c then of_char c - 32 else of_char c)"
proof (cases "isLower c")
  case True
  then have "(of_char c :: nat) - 32 < 256" unfolding isLower_code by arith
  with True show ?thesis by (simp add: toUpperChar_def)
next
  case False
  then show ?thesis by (simp add: toUpperChar_def)
qed

lemma char_eq_code: "(c = d) = ((of_char c :: nat) = of_char d)"
  by simp

lemma toLower_idem [simp]: "toLowerChar (toLowerChar c) = toLowerChar c"
  by (simp add: char_eq_code of_char_toLower isUpper_code del: of_char_eq_iff)

lemma toUpper_toLower: "isUpper c \<Longrightarrow> toUpperChar (toLowerChar c) = c"
  by (simp add: char_eq_code of_char_toLower of_char_toUpper isUpper_code isLower_code del: of_char_eq_iff)

lemma toLower_not_upper: "\<not> isUpper c \<Longrightarrow> toLowerChar c = c"
  by (simp add: toLowerChar_def)

lemma toUpper_upper: "isUpper c \<Longrightarrow> toUpperChar c = c"
  by (simp add: toUpperChar_def isUpper_code isLower_code)

lemma isWordChar_toLower [simp]: "isWordChar (toLowerChar c) = isWordChar c"
  by (cases "isUpper c")
     (auto simp: isWordChar_def isUpper_code isLower_code isDigit_code of_char_toLower char_eq_code
           simp del: of_char_eq_iff)

lemma litMatch_toLower [simp]: "litMatch c (toLowerChar x) = litMatch c x"
  by (simp add: litMatch_def)

lemma classMatch_toLower [simp]: "classMatch rs (toLowerChar x) = classMatch rs x"
proof (cases "isUpper x")
  case True
  then show ?thesis
    by (auto simp: classMatch_def toUpper_toLower toUpper_upper)
next
  case False
  then show ?thesis by (simp add: toLower_not_upper)
qed

lemma lowered_simp [simp]: "lowered (p, s) = (p, stringsToLower s)"
  by (simp add: lowered_def)

lemma lower_Nil [simp]: "stringsToLower [] = []"
  and lower_Cons [simp]: "stringsToLower (x # xs) = toLowerChar x # stringsToLower xs"
  and lower_append [simp]: "stringsToLower (xs @ ys) = stringsToLower xs @ stringsToLower ys"
  and length_lower [simp]: "length (stringsToLower xs) = length xs"
  by (simp_all add: stringsToLower_def)

lemma seq_lower:
  assumes l1: "R = map lowered R'"
    and l2: "\<And>y. y \<in> set R' \<Longrightarrow> rmatch r2 (lowered y) = map lowered (rmatch r2 y)"
  shows "concat (map (rmatch r2) R) = map lowered (concat (map (rmatch r2) R'))"
proof -
  have "concat (map (rmatch r2) R) = concat (map (\<lambda>y. rmatch r2 (lowered y)) R')"
    by (simp add: l1 comp_def)
  also have "\<dots> = concat (map (\<lambda>y. map lowered (rmatch r2 y)) R')"
    using l2 by (auto intro!: arg_cong [where f = concat] map_cong)
  also have "\<dots> = map lowered (concat (map (rmatch r2) R'))"
    by (simp add: map_concat comp_def)
  finally show ?thesis .
qed

lemma rmatch_lower: "rmatch r (lowered st) = map lowered (rmatch r st)"
proof (induction r st rule: rmatch.induct)
  case (1 c p s)
  show ?case by (cases s) (auto simp: rmatch_base)
next
  case (2 rs p s)
  show ?case by (cases s) (auto simp: rmatch_base)
next
  case (3 p s)
  show ?case by (cases s) (auto simp: rmatch_base)
next
  case (4 st)
  show ?case by (simp add: rmatch_base)
next
  case (5 r1 r2 st)
  show ?case
    using seq_lower [OF 5(1) 5(2)] by (simp add: rmatch_base)
next
  case (6 r st)
  then show ?case by (simp add: rmatch_base)
next
  case (7 n r st)
  show ?case
  proof (cases "n = 0")
    case True
    then show ?thesis by (simp add: rmatch_Repeat_0)
  next
    case False
    from seq_lower [OF 7(1) [OF False] 7(2) [OF False]] False
    show ?thesis by (simp add: rmatch_Repeat_pos)
  qed
next
  case (8 r p s)
  let ?short = "\<lambda>n (x :: bool \<times> string). length (snd x) < n"
  have short: "(\<lambda>(p', s'). length s' < n) = ?short n" for n
    by (auto simp: fun_eq_iff)
  have a: "rmatch (Star r) (p, s) =
             concat (map (rmatch (Star r)) (filter (?short (length s)) (rmatch r (p, s)))) @ [(p, s)]"
    by (subst rmatch_Star) (simp only: short)
  have b: "rmatch (Star r) (p, stringsToLower s) =
             concat (map (rmatch (Star r))
               (filter (?short (length s)) (rmatch r (p, stringsToLower s)))) @ [(p, stringsToLower s)]"
    by (subst rmatch_Star) (simp only: short length_lower)
  have l1: "filter (?short (length s)) (rmatch r (p, stringsToLower s)) =
            map lowered (filter (?short (length s)) (rmatch r (p, s)))"
    using 8(1) by (simp add: filter_map comp_def lowered_def)
  have l2: "rmatch (Star r) (lowered y) = map lowered (rmatch (Star r) y)"
    if "y \<in> set (filter (?short (length s)) (rmatch r (p, s)))" for y
    using 8(2) [of y] that by (simp add: short)
  note d = seq_lower [OF l1 l2]
  show ?case
    unfolding lowered_simp a b map_append by (simp only: d) simp
qed

lemma rmatch_WordBoundary: "rmatch WordBoundary x = (if wbOK x then [x] else [])"
  by (cases x) (simp add: rmatch_base wbOK_def nextWord_def)

lemma concat_WordBoundary: "concat (map (rmatch WordBoundary) xs) = filter wbOK xs"
  by (induction xs) (simp_all add: rmatch_WordBoundary)

lemma rmatch_then_WordBoundary:
  "rmatch (Cat r WordBoundary) = (\<lambda>x. filter wbOK (rmatch r x))"
  by (rule ext) (simp add: rmatch_base concat_WordBoundary)

lemma rmatch_pattern:
  "rmatch (subdomainPattern d) st =
     (if wbOK st then filter wbOK (rmatch (patternBody d) st) else [])"
  by (simp add: subdomainPattern_def patternBody_def rmatch_base rmatch_WordBoundary
      rmatch_then_WordBoundary filter_concat comp_def)

lemma literal_Nil: "literal [] = Empty"
  and literal_Cons: "literal (c # d) = Cat (Lit c) (literal d)"
  by (simp_all add: literal_def)

lemma plain_literal: "plain (literal d)"
  by (induction d) (simp_all add: literal_Nil literal_Cons)

lemma plain_body: "plain (patternBody d)"
  by (simp add: patternBody_def labelRegex_def plain_literal)

lemma rmatch_literal:
  "y \<in> set (rmatch (literal d) (q, s)) \<Longrightarrow>
     \<exists>D. s = D @ snd y \<and> length D = length d \<and> stringsToLower D = stringsToLower d"
proof (induction d arbitrary: q s)
  case Nil
  then show ?case by (simp add: literal_Nil rmatch_base)
next
  case (Cons c d)
  from Cons.prems obtain x xs where s: "s = x # xs" and m: "litMatch c x"
    and y: "y \<in> set (rmatch (literal d) (isWordChar x, xs))"
    by (cases s) (auto simp: literal_Cons rmatch_base split: if_splits)
  from Cons.IH [OF y] obtain D where D: "xs = D @ snd y" "length D = length d"
    "stringsToLower D = stringsToLower d" by blast
  from s m D have "s = (x # D) @ snd y \<and> length (x # D) = length (c # d) \<and>
      stringsToLower (x # D) = stringsToLower (c # d)"
    by (simp add: litMatch_def)
  then show ?case by blast
qed

lemma isWordChar_toUpper [simp]: "isWordChar (toUpperChar c) = isWordChar c"
  by (cases "isLower c")
     (auto simp: isWordChar_def isUpper_code isLower_code isDigit_code of_char_toUpper char_eq_code
           simp del: of_char_eq_iff)

lemma inRanges_alnum: "inRanges alnum c = (isLower c \<or> isDigit c)"
  by (simp add: inRanges_def alnum_def isLower_def isDigit_def)

lemma classMatch_alnum_word: "classMatch alnum c \<Longrightarrow> isWordChar c"
proof -
  assume "classMatch alnum c"
  then have "isWordChar c \<or> isWordChar (toLowerChar c) \<or> isWordChar (toUpperChar c)"
    by (auto simp: classMatch_def inRanges_alnum isWordChar_def)
  then show ?thesis by simp
qed

lemma rmatch_label_nonempty:
  "rmatch labelRegex (p, s) \<noteq> [] \<Longrightarrow> s \<noteq> [] \<and> isWordChar (hd s)"
  by (cases s) (auto simp: labelRegex_def rmatch_base classMatch_alnum_word split: if_splits)

lemma rmatch_Star_cases:
  "x \<in> set (rmatch (Star r) (p, s)) \<Longrightarrow> x = (p, s) \<or> rmatch r (p, s) \<noteq> []"
  by (subst (asm) rmatch_Star) auto

lemma word_of_lower_eq:
  "toLowerChar a = toLowerChar b \<Longrightarrow> isWordChar a = isWordChar b"
  by (metis isWordChar_toLower)

lemma lower_eq_hd:
  "stringsToLower D = stringsToLower d \<Longrightarrow> d \<noteq> [] \<Longrightarrow> isWordChar (hd D) = isWordChar (hd d)"
  by (cases D; cases d) (auto dest: word_of_lower_eq)

lemma lower_eq_last:
  "stringsToLower D = stringsToLower d \<Longrightarrow> d \<noteq> [] \<Longrightarrow> isWordChar (last D) = isWordChar (last d)"
proof -
  assume a: "stringsToLower D = stringsToLower d" and d: "d \<noteq> []"
  then have D: "D \<noteq> []" by (cases D) (auto simp: stringsToLower_def)
  from a have "last (map toLowerChar D) = last (map toLowerChar d)"
    by (simp add: stringsToLower_def)
  with d D have "toLowerChar (last D) = toLowerChar (last d)" by (simp add: last_map)
  then show ?thesis by (rule word_of_lower_eq)
qed

lemma rmatch_body:
  assumes x: "x \<in> set (rmatch (patternBody d) (p, s))"
    and d: "d \<noteq> []" "isWordChar (hd d)" "isWordChar (last d)"
  shows "s \<noteq> [] \<and> isWordChar (hd s) \<and> fst x \<and> length (snd x) < length s"
proof -
  from x obtain y where y: "y \<in> set (rmatch (Star labelRegex) (p, s))"
    and xy: "x \<in> set (rmatch (literal d) y)"
    by (auto simp: patternBody_def rmatch_base)
  from rmatch_literal [of x d "fst y" "snd y"] xy obtain D where
    D: "snd y = D @ snd x" "length D = length d" "stringsToLower D = stringsToLower d"
    by auto
  from D d have Dne: "D \<noteq> []" by auto
  from rmatch_suffix [of "fst y" "snd y" "Star labelRegex" p s] y obtain w where
    w: "s = w @ snd y" by auto
  from rmatch_suffix [of "fst x" "snd x" "literal d" "fst y" "snd y"] xy obtain w' where
    w': "snd y = w' @ snd x" "fst x = lastWord (fst y) w'" by auto
  from w' D have "w' = D" by simp
  with w' Dne have "fst x = isWordChar (last D)" by (simp add: lastWord_def)
  with lower_eq_last [OF D(3) d(1)] d have fx: "fst x" by simp
  from w D Dne have len: "length (snd x) < length s" by (cases D) auto
  have hd: "s \<noteq> [] \<and> isWordChar (hd s)"
  proof (cases "y = (p, s)")
    case True
    with D Dne have "s \<noteq> []" "hd s = hd D" by auto
    with lower_eq_hd [OF D(3) d(1)] d show ?thesis by simp
  next
    case False
    with rmatch_Star_cases [OF y] have "rmatch labelRegex (p, s) \<noteq> []" by simp
    then show ?thesis by (rule rmatch_label_nonempty)
  qed
  from hd fx len show ?thesis by simp
qed

lemma rmatch_pattern_Nil: "d \<noteq> [] \<Longrightarrow> rmatch (subdomainPattern d) (p, []) = []"
proof (rule ccontr)
  assume d: "d \<noteq> []" and "rmatch (subdomainPattern d) (p, []) \<noteq> []"
  then obtain x where "x \<in> set (rmatch (subdomainPattern d) (p, []))"
    by (cases "rmatch (subdomainPattern d) (p, [])") auto
  then have "x \<in> set (rmatch (patternBody d) (p, []))"
    by (auto simp: rmatch_pattern split: if_splits)
  then obtain y where "x \<in> set (rmatch (literal d) y)" "y \<in> set (rmatch (Star labelRegex) (p, []))"
    by (auto simp: patternBody_def rmatch_base)
  with rmatch_literal [of x d "fst y" "snd y"] rmatch_suffix [of "fst y" "snd y" "Star labelRegex" p "[]"] d
  show False by auto
qed

lemma nextWord_append: "\<not> nextWord v \<Longrightarrow> nextWord (w @ v) = nextWord w"
  by (cases w) (simp_all add: nextWord_def)

lemma nextWord_lower [simp]: "nextWord (stringsToLower w) = nextWord w"
  by (cases w) (simp_all add: nextWord_def)

lemma wbOK_ext: "\<not> nextWord v \<Longrightarrow> wbOK (extendBy v x) = wbOK x"
  by (simp add: wbOK_def extendBy_def nextWord_append)

lemma wbOK_low [simp]: "wbOK (lowered x) = wbOK x"
  by (simp add: wbOK_def lowered_def)

lemma filter_map_same:
  "(\<And>x. P (f x) = P x) \<Longrightarrow> filter P (map f xs) = map f (filter P xs)"
  by (induction xs) auto

lemma first_match_standalone:
  assumes d: "d \<noteq> []" "isWordChar (hd d)" "isWordChar (last d)"
    and first: "rmatch (subdomainPattern d) (p, s) = x # rest"
  obtains m where "s = m @ snd x" and "m \<noteq> []" and "isWordChar (hd m)" and "isWordChar (last m)"
    and "\<exists>rest'. rmatch (subdomainPattern d) (False, stringsToLower m) = (True, []) # rest'"
proof -
  from first have ok: "wbOK (p, s)" and filt: "filter wbOK (rmatch (patternBody d) (p, s)) = x # rest"
    by (auto simp: rmatch_pattern split: if_splits)
  from filt have "x \<in> set (filter wbOK (rmatch (patternBody d) (p, s)))" by simp
  then have xin: "x \<in> set (rmatch (patternBody d) (p, s))" and xok: "wbOK x" by simp_all
  from rmatch_body [OF xin d] have sne: "s \<noteq> []" and hds: "isWordChar (hd s)"
    and fx: "fst x" and len: "length (snd x) < length s" by simp_all
  from rmatch_suffix [of "fst x" "snd x" "patternBody d" p s] xin obtain m where
    m: "s = m @ snd x" and lw: "fst x = lastWord p m" by auto
  from m len have mne: "m \<noteq> []" by auto
  with m have hdm: "hd m = hd s" by (cases m) auto
  from lw fx mne have lastm: "isWordChar (last m)" by (simp add: lastWord_def)
  from ok sne hds have p: "p = False" by (cases s) (auto simp: wbOK_def nextWord_def)
  from xok fx have nw: "\<not> nextWord (snd x)" by (simp add: wbOK_def)
  have x: "x = (True, snd x)" using fx by (cases x) auto
  let ?v = "snd x"
  let ?A = "rmatch (patternBody d) (False, m @ ?v)"
  let ?B = "rmatch (patternBody d) (False, m)"
  have loc: "filter (leaves ?v) ?A = map (extendBy ?v) ?B"
    using rmatch_local [OF plain_body, of d "(False, m @ ?v)"] by (simp add: localAt_def)
  have "map (extendBy ?v) (filter wbOK ?B) = filter wbOK (map (extendBy ?v) ?B)"
    by (rule filter_map_same [symmetric]) (rule wbOK_ext [OF nw])
  also have "\<dots> = filter (leaves ?v) (filter wbOK ?A)"
    unfolding loc [symmetric] by (simp add: conj_commute)
  also have "\<dots> = filter (leaves ?v) (x # rest)"
    using filt by (simp add: m [symmetric] p)
  also have "\<dots> = x # filter (leaves ?v) rest"
    by (simp add: leaves_def)
  finally obtain b bs where B: "filter wbOK ?B = b # bs" and b: "extendBy ?v b = x"
    by (cases "filter wbOK ?B") auto
  from b have "fst (extendBy ?v b) = fst x" and "snd (extendBy ?v b) = snd x" by simp_all
  then have b': "b = (True, [])" using fx by (cases b) (simp add: extendBy_def)
  have "rmatch (patternBody d) (False, stringsToLower m) = map lowered ?B"
    using rmatch_lower [of "patternBody d" "(False, m)"] by simp
  then have "filter wbOK (rmatch (patternBody d) (False, stringsToLower m)) = map lowered (filter wbOK ?B)"
    by (simp add: filter_map_same)
  with B b' have "filter wbOK (rmatch (patternBody d) (False, stringsToLower m)) = (True, []) # map lowered bs"
    by simp
  moreover have "wbOK (False, stringsToLower m)"
    using mne hdm hds by (cases m) (auto simp: wbOK_def nextWord_def)
  ultimately have "rmatch (subdomainPattern d) (False, stringsToLower m) = (True, []) # map lowered bs"
    by (simp add: rmatch_pattern)
  then have "\<exists>rest'. rmatch (subdomainPattern d) (False, stringsToLower m) = (True, []) # rest'" ..
  with m mne hdm hds lastm that show ?thesis by simp
qed

declare allMatches.simps [simp del]

lemma search_found:
  "search re (p, s) = Some (k, n) \<Longrightarrow>
     k \<le> length s \<and>
     (\<exists>q x rest. rmatch re (q, drop k s) = x # rest \<and> n = length (drop k s) - length (snd x))"
proof (induction s arbitrary: p k)
  case Nil
  then show ?case by (auto split: list.splits)
next
  case (Cons c s)
  show ?case
  proof (cases "rmatch re (p, c # s)")
    case Nil
    with Cons.prems obtain k' where k: "k = Suc k'" and s: "search re (isWordChar c, s) = Some (k', n)"
      by auto
    from Cons.IH [OF s] k show ?thesis by simp
  next
    case (Cons x rest)
    with Cons.prems have k: "k = 0" and "n = length (c # s) - length (snd x)"
      by (auto split: prod.splits)
    with Cons have "rmatch re (p, drop k (c # s)) = x # rest \<and>
        n = length (drop k (c # s)) - length (snd x)" by simp
    then show ?thesis using k by blast
  qed
qed

lemma search_first:
  "rmatch re (p, s) = x # rest \<Longrightarrow> search re (p, s) = Some (0, length s - length (snd x))"
  by (cases s) (auto split: prod.splits)

lemma search_Nil: "rmatch re (p, []) = [] \<Longrightarrow> search re (p, []) = None"
  by simp

lemma allMatches_found:
  "m \<in> set (allMatches re t pos prev) \<Longrightarrow>
     \<exists>u q x rest. t = u @ m @ snd x \<and> rmatch re (q, m @ snd x) = x # rest"
proof (induction re t pos prev rule: allMatches.induct)
  case (1 re s pos prevMatchEnd)
  note unf = allMatches.simps [of re s pos prevMatchEnd]
  have le: "pos \<le> length s"
    by (rule ccontr) (use "1.prems" in \<open>simp add: unf\<close>)
  obtain m0 m1 where ex: "doExecute re s pos = Some (m0, m1)"
    by (cases "doExecute re s pos") (use "1.prems" le in \<open>auto simp: unf\<close>)
  consider
      "m = substr s m0 m1"
    | "m1 = pos" "m \<in> set (allMatches re s (pos + 1) (int m1))"
    | "m1 \<noteq> pos" "m \<in> set (allMatches re s m1 (int m1))"
    by (cases "m1 = pos"; cases "int m0 = prevMatchEnd")
       (use "1.prems" le ex in \<open>auto simp: unf\<close>)
  then show ?case
  proof cases
    case 1
    from ex obtain k n where k: "search re (0 < pos \<and> isWordChar (s ! (pos - 1)), drop pos s) = Some (k, n)"
      and m0: "m0 = pos + k" and m1: "m1 = pos + k + n"
      by (auto simp: doExecute_def)
    from search_found [OF k] obtain q x rest where
      r: "rmatch re (q, drop k (drop pos s)) = x # rest"
      and n: "n = length (drop k (drop pos s)) - length (snd x)" by blast
    from rmatch_suffix [of "fst x" "snd x" re q "drop k (drop pos s)"] r obtain w where
      w: "drop k (drop pos s) = w @ snd x" by (cases x) auto
    from w n have "n = length w" by simp
    with 1 m0 m1 w have "m = w"
      by (simp add: substr_def add.commute)
    moreover from w have "s = take (pos + k) s @ w @ snd x"
      by (metis append_take_drop_id drop_drop add.commute)
    ultimately show ?thesis using r w by metis
  next
    case 2
    from "1.IH"(1) [OF le ex refl 2(1) 2(2)] show ?thesis .
  next
    case 3
    from "1.IH"(2) [OF le ex refl 3(1) 3(2)] show ?thesis .
  qed
qed

lemma findAllString_found:
  "m \<in> set (findAllString re t) \<Longrightarrow>
     \<exists>u q x rest. t = u @ m @ snd x \<and> rmatch re (q, m @ snd x) = x # rest"
  unfolding findAllString_def by (rule allMatches_found)

lemma findAllString_whole:
  assumes "rmatch re (False, s) = (True, []) # rest" and "s \<noteq> []"
    and "\<And>q. rmatch re (q, []) = []"
  shows "findAllString re s = [s]"
proof -
  have e0: "doExecute re s 0 = Some (0, length s)"
    using search_first [OF assms(1)] by (simp add: doExecute_def)
  have e1: "doExecute re s (length s) = None"
    using assms(3) by (simp add: doExecute_def)
  have "allMatches re s (length s) (int (length s)) = []"
    by (subst allMatches.simps) (simp add: e1)
  then show ?thesis
    unfolding findAllString_def using assms(2)
    by (subst allMatches.simps) (simp add: e0 substr_def)
qed

lemma extractSubdomains_fold:
  "extractSubdomains d raws = sort (foldl (entryStep d) [] raws)"
proof -
  have "entryStep d =
          (\<lambda>set1 nameValue.
              foldl (\<lambda>set2 entry. foldl (addMatch d) set2 (findAllString (subdomainPattern d) entry))
                    set1 (stringsSplit nameValue (CHR 0x0A)))"
    by (intro ext) (simp add: entryStep_def)
  then show ?thesis by (simp add: extractSubdomains_def Let_def)
qed

lemma addMatch_norm:
  "addMatch d ks m =
     (if isValidSubdomain (normalise m) \<and> stringsContains (normalise m) d then List.insert (normalise m) ks
      else ks)"
  by (simp add: addMatch_def normalise_def Let_def)

lemma split_no_sep: "t \<in> set (stringsSplit s c) \<Longrightarrow> c \<notin> set t"
proof (induction s arbitrary: t)
  case Nil
  then show ?case by simp
next
  case (Cons x s)
  show ?case
  proof (cases "x = c")
    case True
    with Cons show ?thesis by auto
  next
    case False
    with Cons show ?thesis
      by (cases "stringsSplit s c") auto
  qed
qed

lemma split_single: "c \<notin> set s \<Longrightarrow> stringsSplit s c = [s]"
  by (induction s) auto

lemma spaceRunes_bytes:
  "list_all (\<lambda>r. r \<noteq> [] \<and> \<not> isWordChar (hd r) \<and> \<not> isWordChar (last r)) spaceRunes"
  by code_simp

lemma hasPrefix_hd: "stringsHasPrefix s r \<Longrightarrow> r \<noteq> [] \<Longrightarrow> hd s = hd r"
  by (cases s; cases r) (auto simp: stringsHasPrefix_def)

lemma hasSuffix_last: "stringsHasSuffix s r \<Longrightarrow> r \<noteq> [] \<Longrightarrow> last s = last r"
proof -
  assume a: "stringsHasSuffix s r" and r: "r \<noteq> []"
  then have "s = take (length s - length r) s @ r"
    by (metis append_take_drop_id stringsHasSuffix_def)
  then have "last s = last (take (length s - length r) s @ r)" by simp
  with r show ?thesis by simp
qed

lemma trimLeftSpace_word:
  assumes "s \<noteq> []" and "isWordChar (hd s)"
  shows "trimLeftSpace s = s"
proof -
  have "\<not> stringsHasPrefix s r" if "r \<in> set spaceRunes" for r
    using spaceRunes_bytes that assms hasPrefix_hd [of s r] by (auto simp: list_all_iff)
  then have "find (stringsHasPrefix s) spaceRunes = None"
    by (simp add: find_None_iff)
  then show ?thesis by (subst trimLeftSpace.simps) simp
qed

lemma trimRightSpace_word:
  assumes "s \<noteq> []" and "isWordChar (last s)"
  shows "trimRightSpace s = s"
proof -
  have "\<not> stringsHasSuffix s r" if "r \<in> set spaceRunes" for r
    using spaceRunes_bytes that assms hasSuffix_last [of s r] by (auto simp: list_all_iff)
  then have "find (stringsHasSuffix s) spaceRunes = None"
    by (simp add: find_None_iff)
  then show ?thesis by (subst trimRightSpace.simps) simp
qed

lemma trimSpace_id:
  assumes "s \<noteq> []" "isWordChar (hd s)" "isWordChar (last s)"
  shows "stringsTrimSpace s = s"
  using assms by (simp add: stringsTrimSpace_def trimLeftSpace_word trimRightSpace_word)

lemma trimPrefix_word: "s \<noteq> [] \<Longrightarrow> isWordChar (hd s) \<Longrightarrow> stringsTrimPrefix s ''*.'' = s"
  by (cases s) (auto simp: stringsTrimPrefix_def stringsHasPrefix_def isWordChar_def
      isUpper_code isLower_code isDigit_code)

lemma lower_lower [simp]: "stringsToLower (stringsToLower m) = stringsToLower m"
  by (simp add: stringsToLower_def)

lemma hd_lower: "m \<noteq> [] \<Longrightarrow> hd (stringsToLower m) = toLowerChar (hd m)"
  by (cases m) simp_all

lemma last_lower: "m \<noteq> [] \<Longrightarrow> last (stringsToLower m) = toLowerChar (last m)"
  by (simp add: stringsToLower_def last_map)

lemma lower_Nil_iff [simp]: "(stringsToLower m = []) = (m = [])"
  by (simp add: stringsToLower_def)

lemma toLower_newline: "toLowerChar c = CHR 0x0A \<Longrightarrow> c = CHR 0x0A"
  by (cases "isUpper c")
     (auto simp: char_eq_code of_char_toLower isUpper_code simp del: of_char_eq_iff)

lemma newline_lower: "CHR 0x0A \<notin> set m \<Longrightarrow> CHR 0x0A \<notin> set (stringsToLower m)"
  by (induction m) (auto dest: toLower_newline [OF sym])

lemma norm_match:
  assumes "m \<noteq> []" "isWordChar (hd m)" "isWordChar (last m)"
  shows "normalise m = stringsToLower m"
proof -
  from assms have "stringsTrimSpace m = m"
    by (rule trimSpace_id)
  moreover from assms have "stringsTrimPrefix (stringsToLower m) ''*.'' = stringsToLower m"
    by (intro trimPrefix_word) (simp_all add: hd_lower)
  ultimately show ?thesis by (simp add: normalise_def)
qed

lemma norm_standalone: "standalone d k \<Longrightarrow> normalise k = k"
  using norm_match [of k] by (simp add: standalone_def)

lemma match_standalone:
  assumes d: "d \<noteq> []" "isWordChar (hd d)" "isWordChar (last d)"
    and t: "CHR 0x0A \<notin> set t" and m: "m \<in> set (findAllString (subdomainPattern d) t)"
    and ok: "isValidSubdomain (normalise m)" "stringsContains (normalise m) d"
  shows "standalone d (normalise m)"
proof -
  from findAllString_found [OF m] obtain u q x rest where
    tm: "t = u @ m @ snd x" and r: "rmatch (subdomainPattern d) (q, m @ snd x) = x # rest"
    by blast
  from first_match_standalone [OF d r] obtain m' where m': "m @ snd x = m' @ snd x"
    and ne: "m' \<noteq> []" and hd: "isWordChar (hd m')" and last: "isWordChar (last m')"
    and st: "\<exists>rest'. rmatch (subdomainPattern d) (False, stringsToLower m') = (True, []) # rest'"
    by metis
  from m' have mm: "m' = m" by simp
  have n: "normalise m = stringsToLower m" using ne hd last unfolding mm by (rule norm_match)
  from tm t have "CHR 0x0A \<notin> set m" by simp
  then have nl: "CHR 0x0A \<notin> set (stringsToLower m)" by (rule newline_lower)
  show ?thesis
    unfolding standalone_def n
    using ok ne hd last st nl by (simp add: mm n hd_lower last_lower)
qed

lemma foldl_inv:
  assumes "I a" and "\<And>a x. x \<in> set xs \<Longrightarrow> I a \<Longrightarrow> I (f a x)"
  shows "I (foldl f a xs)"
  using assms by (induction xs arbitrary: a) auto

lemma goodKeys_addMatch:
  assumes d: "d \<noteq> []" "isWordChar (hd d)" "isWordChar (last d)"
    and t: "CHR 0x0A \<notin> set t" and m: "m \<in> set (findAllString (subdomainPattern d) t)"
    and ks: "goodKeys d ks"
  shows "goodKeys d (addMatch d ks m)"
  using ks match_standalone [OF d t m]
  by (auto simp: addMatch_norm goodKeys_def list_all_iff)

lemma goodKeys_entryStep:
  assumes d: "d \<noteq> []" "isWordChar (hd d)" "isWordChar (last d)" and ks: "goodKeys d ks"
  shows "goodKeys d (entryStep d ks nameValue)"
  unfolding entryStep_def
proof (rule foldl_inv [where I = "goodKeys d"])
  show "goodKeys d ks" by (rule ks)
next
  fix a t assume t: "t \<in> set (stringsSplit nameValue (CHR 0x0A))" and a: "goodKeys d a"
  from t have nl: "CHR 0x0A \<notin> set t" by (rule split_no_sep)
  show "goodKeys d (foldl (addMatch d) a (findAllString (subdomainPattern d) t))"
    by (rule foldl_inv [where I = "goodKeys d"]) (auto intro: a goodKeys_addMatch [OF d nl])
qed

lemma goodKeys_extract:
  assumes d: "d \<noteq> []" "isWordChar (hd d)" "isWordChar (last d)"
  shows "goodKeys d (foldl (entryStep d) [] raws)"
proof (rule foldl_inv [where I = "goodKeys d"])
  show "goodKeys d []" by (simp add: goodKeys_def)
next
  fix a x assume "goodKeys d a"
  then show "goodKeys d (entryStep d a x)" by (rule goodKeys_entryStep [OF d])
qed

lemma entryStep_standalone:
  assumes d: "d \<noteq> []" and k: "standalone d k"
  shows "entryStep d ks k = List.insert k ks"
proof -
  from k have nl: "CHR 0x0A \<notin> set k" and ne: "k \<noteq> []"
    and r: "\<exists>rest. rmatch (subdomainPattern d) (False, k) = (True, []) # rest"
    and ok: "isValidSubdomain k" "stringsContains k d"
    by (simp_all add: standalone_def)
  from r obtain rest where r': "rmatch (subdomainPattern d) (False, k) = (True, []) # rest" ..
  have "findAllString (subdomainPattern d) k = [k]"
    using r' ne by (rule findAllString_whole) (rule rmatch_pattern_Nil [OF d])
  then show ?thesis
    using ok by (simp add: entryStep_def split_single [OF nl] addMatch_norm norm_standalone [OF k])
qed

lemma foldl_entryStep_standalone:
  assumes d: "d \<noteq> []" and ks: "list_all (standalone d) out"
  shows "foldl (entryStep d) acc out = foldl (\<lambda>a k. List.insert k a) acc out"
  using ks by (induction out arbitrary: acc) (simp_all add: entryStep_standalone [OF d])

lemma set_foldl_insert: "set (foldl (\<lambda>a k. List.insert k a) acc xs) = set acc \<union> set xs"
  by (induction xs arbitrary: acc) auto

lemma distinct_foldl_insert: "distinct acc \<Longrightarrow> distinct (foldl (\<lambda>a k. List.insert k a) acc xs)"
  by (induction xs arbitrary: acc) auto

text \<open>
  C8, as the code has it. For a target of ASCII characters that begins and ends with a
  word character (a letter, a digit or an underscore) and raw entries of ASCII
  characters, extracting again from the output of the extractor, each subdomain taken
  as a raw entry, gives the same sequence of subdomains. (ASCII is where the model of
  the matcher is that of Go; the proof itself does not use it.)
\<close>

theorem extractSubdomains_idempotent:
  assumes "isASCII domain" and "list_all isASCII nameValues"
    and "domain \<noteq> []" and "isWordChar (hd domain)" and "isWordChar (last domain)"
  shows "extractSubdomains domain (extractSubdomains domain nameValues) =
         extractSubdomains domain nameValues"
proof -
  let ?ks = "foldl (entryStep domain) [] nameValues"
  let ?out = "sort ?ks"
  have good: "goodKeys domain ?ks" by (rule goodKeys_extract [OF assms(3-5)])
  from good have all: "list_all (standalone domain) ?out"
    by (simp add: goodKeys_def list_all_iff)
  from good have dist: "distinct ?ks"
    by (simp add: goodKeys_def)
  let ?ks' = "foldl (\<lambda>a k. List.insert k a) [] ?out"
  have "foldl (entryStep domain) [] ?out = ?ks'"
    by (rule foldl_entryStep_standalone [OF assms(3) all])
  moreover have "sort ?ks' = ?out"
    by (rule sorted_distinct_set_unique)
       (simp_all add: set_foldl_insert distinct_foldl_insert dist)
  ultimately show ?thesis by (simp add: extractSubdomains_fold)
qed

theorem extractSubdomains_idempotent_witness:
  "isASCII ''example.com'' \<and> isWordChar (hd ''example.com'') \<and>
   isWordChar (last ''example.com'') \<and>
   extractSubdomains ''example.com''
     [''bar.example.com'', ''baz.example.com'', ''foo.example.com''] =
     [''bar.example.com'', ''baz.example.com'', ''foo.example.com'']"
proof -
  have a: "isASCII ''example.com''" by code_simp
  have b: "list_all isASCII
     [''foo.example.com'' @ [CHR 0x0A] @ ''BAR.EXAMPLE.COM'', ''not-related.org'',
      ''*.baz.example.com'']" by code_simp
  have c: "isWordChar (hd ''example.com'')" by code_simp
  have d: "isWordChar (last ''example.com'')" by code_simp
  have e: "''example.com'' \<noteq> []" by simp
  have "extractSubdomains ''example.com''
     [''bar.example.com'', ''baz.example.com'', ''foo.example.com''] =
     [''bar.example.com'', ''baz.example.com'', ''foo.example.com'']"
    using extractSubdomains_idempotent [OF a b e c d] unfolding example_extraction .
  with a c d show ?thesis by blast
qed

text \<open>
  C8 as it is stated fails for a target that begins with a character that is not a word
  character. For the target \<^verbatim>\<open>-example.com\<close> the entry \<^verbatim>\<open>a-example.com\<close> gives the
  subdomain \<^verbatim>\<open>-example.com\<close>, where the pattern finds its word boundary between
  \<^verbatim>\<open>a\<close> and the hyphen; in the subdomain alone no word boundary comes before the
  hyphen, and extracting from it gives nothing.
\<close>

theorem extractSubdomains_idempotent_counterexample:
  "extractSubdomains ''-example.com'' [''a-example.com''] = [''-example.com''] \<and>
   extractSubdomains ''-example.com'' (extractSubdomains ''-example.com'' [''a-example.com'']) = []"
  by code_simp

end
